theory Spec2Isabelle
  imports Main "HOL-Library.AList" "HOL-Library.Sublist"
begin

section \<open>The file system\<close>

text \<open>
  \<^verbatim>\<open>folder_sync.py\<close> works on the file system of the host through \<^verbatim>\<open>os\<close>, \<^verbatim>\<open>os.path\<close>
  and \<^verbatim>\<open>shutil\<close>. The file system is one tree: a node is a regular file with its bytes or
  a directory with its entries, in the order the directory returns them. A path is the
  list of its components from the root of the file system, so \<^verbatim>\<open>os.path.join\<close> of a path
  and a relative path is \<open>@\<close> and \<^verbatim>\<open>os.path.dirname\<close> is \<open>butlast\<close>. Symbolic links, devices,
  permissions and time stamps are not part of the tree.
\<close>

type_synonym name = string
type_synonym path = "name list"
type_synonym bytes = string
type_synonym digest = string

datatype node = File bytes | Dir "(name \<times> node) list"

text \<open>A directory holds one entry per name.\<close>

fun well_formed :: "node \<Rightarrow> bool" and well_formed_entries :: "(name \<times> node) list \<Rightarrow> bool" where
  "well_formed (File c) = True"
| "well_formed (Dir es) = (distinct (map fst es) \<and> well_formed_entries es)"
| "well_formed_entries [] = True"
| "well_formed_entries (e # es) = (well_formed (snd e) \<and> well_formed_entries es)"

fun height :: "node \<Rightarrow> nat" and height_entries :: "(name \<times> node) list \<Rightarrow> nat" where
  "height (File c) = 0"
| "height (Dir es) = Suc (height_entries es)"
| "height_entries [] = 0"
| "height_entries (e # es) = max (height (snd e)) (height_entries es)"

fun lookup :: "node \<Rightarrow> path \<Rightarrow> node option" where
  "lookup t [] = Some t"
| "lookup (File c) (x # xs) = None"
| "lookup (Dir es) (x # xs) = (case map_of es x of None \<Rightarrow> None | Some t \<Rightarrow> lookup t xs)"

text \<open>
  \<open>put p v t\<close> stores the node \<open>v\<close> at the path \<open>p\<close> of \<open>t\<close> (a new entry goes to the end of
  its directory) and \<open>unlink p t\<close> takes the entry at \<open>p\<close> away. Both leave the tree as it is
  when the parent of \<open>p\<close> is not a directory of \<open>t\<close>; the operations below test that before
  they use them.
\<close>

fun put :: "path \<Rightarrow> node \<Rightarrow> node \<Rightarrow> node" where
  "put [] v t = v"
| "put (x # xs) v (File c) = File c"
| "put (x # xs) v (Dir es) =
     (if xs = [] then Dir (AList.update x v es)
      else (case map_of es x of
              None \<Rightarrow> Dir es
            | Some t \<Rightarrow> Dir (AList.update x (put xs v t) es)))"

fun unlink :: "path \<Rightarrow> node \<Rightarrow> node" where
  "unlink [] t = t"
| "unlink (x # xs) (File c) = File c"
| "unlink (x # xs) (Dir es) =
     (if xs = [] then Dir (AList.delete x es)
      else (case map_of es x of
              None \<Rightarrow> Dir es
            | Some t \<Rightarrow> Dir (AList.update x (unlink xs t) es)))"

text \<open>What a path holds, for a reader who does not descend: nothing, a file or a directory.\<close>

datatype entry = Absent | IsFile bytes | IsDir

definition entry_at :: "node \<Rightarrow> path \<Rightarrow> entry" where
  "entry_at t p =
     (case lookup t p of None \<Rightarrow> Absent | Some (File c) \<Rightarrow> IsFile c | Some (Dir es) \<Rightarrow> IsDir)"

section \<open>Exceptions and results\<close>

text \<open>
  Every exception the modelled calls raise is an \<^verbatim>\<open>OSError\<close>, which Python also names
  \<^verbatim>\<open>IOError\<close>; the constructor keeps the reason. \<^verbatim>\<open>ValueError\<close> is what \<^verbatim>\<open>time.sleep\<close>
  raises on a negative length.
\<close>

datatype errno = ENOENT | EISDIR | ENOTDIR | EEXIST | ESAMEFILE | EIO

datatype error = IOError errno | ValueError

text \<open>
  A statement either completes with the new state or raises with the state it had
  reached. \<open>OutOfFuel\<close> is not a result of the program: the walk of a directory tree
  carries a bound on its depth, and \<open>OutOfFuel\<close> says that the bound was too small.
\<close>

datatype 's result = Normal 's | Raised error 's | OutOfFuel

section \<open>The calls of os, os.path and shutil\<close>

definition os_path_exists :: "node \<Rightarrow> path \<Rightarrow> bool" where
  "os_path_exists t p = (lookup t p \<noteq> None)"

definition os_path_isdir :: "node \<Rightarrow> path \<Rightarrow> bool" where
  "os_path_isdir t p = (case lookup t p of Some (Dir es) \<Rightarrow> True | _ \<Rightarrow> False)"

text \<open>
  \<^verbatim>\<open>os.path.relpath(path, start)\<close> on normalised absolute paths: one \<^verbatim>\<open>..\<close> for every
  component of \<open>start\<close> below the common prefix, then the rest of \<open>path\<close>.
\<close>

fun common_prefix :: "path \<Rightarrow> path \<Rightarrow> path" where
  "common_prefix (x # xs) (y # ys) = (if x = y then x # common_prefix xs ys else [])"
| "common_prefix xs ys = []"

definition os_path_relpath :: "path \<Rightarrow> path \<Rightarrow> path" where
  "os_path_relpath p start =
     (let c = common_prefix p start
      in replicate (length start - length c) ''..'' @ drop (length c) p)"

text \<open>
  The names of the sub-directories and of the other entries of a directory, as
  \<^verbatim>\<open>os.scandir\<close> lists them for \<^verbatim>\<open>os.walk\<close>; \<open>None\<close> when the path is not a directory.
\<close>

fun is_dir_node :: "node \<Rightarrow> bool" where
  "is_dir_node (Dir es) = True"
| "is_dir_node (File c) = False"

definition scandir :: "node \<Rightarrow> path \<Rightarrow> (name list \<times> name list) option" where
  "scandir t p =
     (case lookup t p of
        Some (Dir es) \<Rightarrow>
          Some (map fst (filter (\<lambda>e. is_dir_node (snd e)) es),
                map fst (filter (\<lambda>e. \<not> is_dir_node (snd e)) es))
      | _ \<Rightarrow> None)"

definition os_mkdir :: "node \<Rightarrow> path \<Rightarrow> error + node" where
  "os_mkdir t p =
     (if lookup t p \<noteq> None then Inl (IOError EEXIST)
      else (case lookup t (butlast p) of
              None \<Rightarrow> Inl (IOError ENOENT)
            | Some (File c) \<Rightarrow> Inl (IOError ENOTDIR)
            | Some (Dir es) \<Rightarrow> Inr (put p (Dir []) t)))"

text \<open>
  \<^verbatim>\<open>os.makedirs(name, exist_ok=True)\<close>: make the parent first when it does not exist
  (a \<^verbatim>\<open>FileExistsError\<close> of that call is passed over), then the directory itself; the
  error of \<^verbatim>\<open>mkdir\<close> is dropped when the directory is there.
\<close>

function os_makedirs :: "node \<Rightarrow> path \<Rightarrow> error + node" where
  "os_makedirs t p =
     (if p = [] then Inr t
      else (case (if os_path_exists t (butlast p) then Inr t
                  else (case os_makedirs t (butlast p) of
                          Inl e \<Rightarrow> if e = IOError EEXIST then Inr t else Inl e
                        | Inr t' \<Rightarrow> Inr t')) of
              Inl e \<Rightarrow> Inl e
            | Inr t' \<Rightarrow>
                (case os_mkdir t' p of
                   Inl e \<Rightarrow> if os_path_isdir t' p then Inr t' else Inl e
                 | Inr t'' \<Rightarrow> Inr t'')))"
  by pat_completeness auto
termination
  by (relation "measure (\<lambda>(t, p). length p)") auto

text \<open>Opening a file for reading, and for writing (which creates or truncates it).\<close>

definition read_file :: "node \<Rightarrow> path \<Rightarrow> error + bytes" where
  "read_file t p =
     (case lookup t p of
        None \<Rightarrow> Inl (IOError ENOENT)
      | Some (Dir es) \<Rightarrow> Inl (IOError EISDIR)
      | Some (File c) \<Rightarrow> Inr c)"

definition write_file :: "node \<Rightarrow> path \<Rightarrow> bytes \<Rightarrow> error + node" where
  "write_file t p c =
     (case lookup t p of
        Some (Dir es) \<Rightarrow> Inl (IOError EISDIR)
      | _ \<Rightarrow>
          (if p = [] then Inl (IOError EISDIR)
           else (case lookup t (butlast p) of
                   None \<Rightarrow> Inl (IOError ENOENT)
                 | Some (File c') \<Rightarrow> Inl (IOError ENOTDIR)
                 | Some (Dir es) \<Rightarrow> Inr (put p (File c) t))))"

text \<open>
  \<^verbatim>\<open>shutil.copy2(src, dst)\<close>: a destination that is a directory stands for the entry of
  the source's base name in it; copying a file onto itself is refused; then the bytes
  are read and written. The metadata \<^verbatim>\<open>copy2\<close> also copies is not in the model.
\<close>

definition shutil_copy2 :: "node \<Rightarrow> path \<Rightarrow> path \<Rightarrow> error + node" where
  "shutil_copy2 t src dst0 =
     (let dst = (if os_path_isdir t dst0 then dst0 @ (if src = [] then [] else [last src])
                 else dst0)
      in if src = dst \<and> os_path_exists t src then Inl (IOError ESAMEFILE)
         else (case read_file t src of
                 Inl e \<Rightarrow> Inl e
               | Inr c \<Rightarrow> write_file t dst c))"

definition os_remove :: "node \<Rightarrow> path \<Rightarrow> error + node" where
  "os_remove t p =
     (case lookup t p of
        None \<Rightarrow> Inl (IOError ENOENT)
      | Some (Dir es) \<Rightarrow> Inl (IOError EISDIR)
      | Some (File c) \<Rightarrow> Inr (unlink p t))"

declare os_makedirs.simps [simp del]

section \<open>calculate_hash\<close>

text \<open>
  An open file: its bytes, the position of the next read and the offset of a byte that
  cannot be read, if there is one (a medium or a race that makes a read fail
  mid-stream). \<open>file_read f n\<close> is \<^verbatim>\<open>file.read(n)\<close>: at most \<open>n\<close> bytes from the
  position, the empty string at the end of the file, an \<^verbatim>\<open>IOError\<close> when the bytes asked
  for hold the faulty one. Files opened from the tree read without fault.
\<close>

record file_obj =
  data :: bytes
  pos :: nat
  fault :: "nat option"

definition open_rb :: "node \<Rightarrow> path \<Rightarrow> error + file_obj" where
  "open_rb t p =
     (case lookup t p of
        None \<Rightarrow> Inl (IOError ENOENT)
      | Some (Dir es) \<Rightarrow> Inl (IOError EISDIR)
      | Some (File c) \<Rightarrow> Inr \<lparr>data = c, pos = 0, fault = None\<rparr>)"

definition file_read :: "file_obj \<Rightarrow> nat \<Rightarrow> error + (bytes \<times> file_obj)" where
  "file_read f n =
     (let d = take n (drop (pos f) (data f))
      in (case fault f of
            None \<Rightarrow> Inr (d, f\<lparr>pos := pos f + length d\<rparr>)
          | Some k \<Rightarrow>
              if pos f \<le> k \<and> k < pos f + length d then Inl (IOError EIO)
              else Inr (d, f\<lparr>pos := pos f + length d\<rparr>)))"

text \<open>
  The hasher of \<^verbatim>\<open>hashlib\<close> is the list of the chunks \<^verbatim>\<open>update\<close> was given; its
  \<^verbatim>\<open>hexdigest\<close> is the digest of their concatenation. The algorithm is a parameter, the
  function from the bytes to the digest (\<^verbatim>\<open>'md5'\<close> in every call the program makes).

  \<open>hash_loop\<close> is the loop \<^verbatim>\<open>while True: data = file.read(65536) ...\<close>.
\<close>

function hash_loop :: "file_obj \<Rightarrow> bytes list \<Rightarrow> error + bytes list" where
  "hash_loop f hasher =
     (case file_read f 65536 of
        Inl e \<Rightarrow> Inl e
      | Inr r \<Rightarrow> if fst r = [] then Inr hasher else hash_loop (snd r) (hasher @ [fst r]))"
  by pat_completeness auto
termination
  by (relation "measure (\<lambda>(f, h). length (data f) - pos f)")
     (auto simp: file_read_def Let_def split: option.splits if_splits)

declare hash_loop.simps [simp del]

definition calculate_hash :: "node \<Rightarrow> path \<Rightarrow> (bytes \<Rightarrow> digest) \<Rightarrow> error + digest" where
  "calculate_hash t file_path hash_algorithm =
     (case open_rb t file_path of
        Inl e \<Rightarrow> Inl e
      | Inr f \<Rightarrow>
          (case hash_loop f [] of
             Inl e \<Rightarrow> Inl e
           | Inr hasher \<Rightarrow> Inr (hash_algorithm (concat hasher))))"

definition are_files_different ::
  "node \<Rightarrow> path \<Rightarrow> path \<Rightarrow> (bytes \<Rightarrow> digest) \<Rightarrow> error + bool" where
  "are_files_different t source_file replica_file hash_algorithm =
     (case calculate_hash t source_file hash_algorithm of
        Inl e \<Rightarrow> Inl e
      | Inr source_hash \<Rightarrow>
          (case calculate_hash t replica_file hash_algorithm of
             Inl e \<Rightarrow> Inl e
           | Inr replica_hash \<Rightarrow> Inr (source_hash \<noteq> replica_hash)))"

section \<open>The state of a run\<close>

text \<open>
  The lines the program emits, without their time stamps. \<^verbatim>\<open>setup_logging\<close> gives the
  root logger a handler for the log file and a handler for the console, so a line that is
  logged reaches both; \<^verbatim>\<open>print\<close> reaches the console only. The log file is kept apart
  from the tree: it is taken to lie outside both folders.
\<close>

datatype message =
    FileCopied path
  | FileDeleted path
  | ErrorWhileCopying error
  | ErrorWhileRemoving error
  | ErrorDuringSynchronization error
  | SynchronizationCompleted
  | SourceFolderDoesNotExist path
  | ReplicaFolderDoesNotExist path

record state =
  fs :: node
  logfile :: "message list"
  console :: "message list"

definition logging_info :: "message \<Rightarrow> state \<Rightarrow> state" where
  "logging_info m st = st\<lparr>logfile := logfile st @ [m], console := console st @ [m]\<rparr>"

definition logging_error :: "message \<Rightarrow> state \<Rightarrow> state" where
  "logging_error m st = st\<lparr>logfile := logfile st @ [m], console := console st @ [m]\<rparr>"

definition print_line :: "message \<Rightarrow> state \<Rightarrow> state" where
  "print_line m st = st\<lparr>console := console st @ [m]\<rparr>"

section \<open>Loops\<close>

text \<open>A \<^verbatim>\<open>for\<close> loop: the body runs on each element in turn; an exception ends the loop.\<close>

fun for_each :: "('a \<Rightarrow> 's \<Rightarrow> 's result) \<Rightarrow> 'a list \<Rightarrow> 's \<Rightarrow> 's result" where
  "for_each body [] st = Normal st"
| "for_each body (x # xs) st =
     (case body x st of
        Normal st' \<Rightarrow> for_each body xs st'
      | Raised e st' \<Rightarrow> Raised e st'
      | OutOfFuel \<Rightarrow> OutOfFuel)"

text \<open>
  \<^verbatim>\<open>for root, dirs, files in os.walk(dir): body\<close>. \<^verbatim>\<open>os.walk\<close> is a generator: it lists a
  directory when the loop reaches it, hands the triple to the body, and descends into
  the sub-directories it listed only after the body has run, so the body's changes of
  the tree are seen by the rest of the walk. A path that cannot be listed yields nothing
  (\<^verbatim>\<open>os.walk\<close> ignores the error of \<^verbatim>\<open>scandir\<close>). The first argument bounds the depth of the
  walk.
\<close>

fun os_walk ::
  "nat \<Rightarrow> (path \<Rightarrow> name list \<Rightarrow> name list \<Rightarrow> state \<Rightarrow> state result) \<Rightarrow> path \<Rightarrow> state
     \<Rightarrow> state result" where
  "os_walk 0 body dir st = OutOfFuel"
| "os_walk (Suc n) body dir st =
     (case scandir (fs st) dir of
        None \<Rightarrow> Normal st
      | Some (dirs, files) \<Rightarrow>
          (case body dir dirs files st of
             Normal st' \<Rightarrow> for_each (\<lambda>d s. os_walk n body (dir @ [d]) s) dirs st'
           | Raised e st' \<Rightarrow> Raised e st'
           | OutOfFuel \<Rightarrow> OutOfFuel))"

section \<open>copy_files, remove_files, synchronize_folders\<close>

text \<open>The body of the inner loop of \<^verbatim>\<open>copy_files\<close>, for one \<^verbatim>\<open>file\<close> of \<^verbatim>\<open>files\<close>.\<close>

definition copy_file ::
  "path \<Rightarrow> path \<Rightarrow> (bytes \<Rightarrow> digest) \<Rightarrow> path \<Rightarrow> name \<Rightarrow> state \<Rightarrow> state result" where
  "copy_file source_folder replica_folder hash_algorithm root file st =
     (let source_path = root @ [file];
          relative_path = os_path_relpath source_path source_folder;
          replica_path = replica_folder @ relative_path
      in (case os_makedirs (fs st) (butlast replica_path) of
            Inl e \<Rightarrow> Raised e st
          | Inr t1 \<Rightarrow>
              (case (if \<not> os_path_exists t1 replica_path then Inr True
                     else are_files_different t1 source_path replica_path hash_algorithm) of
                 Inl e \<Rightarrow> Raised e (st\<lparr>fs := t1\<rparr>)
               | Inr False \<Rightarrow> Normal (st\<lparr>fs := t1\<rparr>)
               | Inr True \<Rightarrow>
                   (case shutil_copy2 t1 source_path replica_path of
                      Inl e \<Rightarrow> Raised e (st\<lparr>fs := t1\<rparr>)
                    | Inr t2 \<Rightarrow>
                        Normal (logging_info (FileCopied relative_path) (st\<lparr>fs := t2\<rparr>))))))"

definition copy_files ::
  "nat \<Rightarrow> path \<Rightarrow> path \<Rightarrow> (bytes \<Rightarrow> digest) \<Rightarrow> state \<Rightarrow> state result" where
  "copy_files n source_folder replica_folder hash_algorithm st =
     (case os_walk n
             (\<lambda>root dirs files.
                for_each (copy_file source_folder replica_folder hash_algorithm root) files)
             source_folder st of
        Normal st' \<Rightarrow> Normal st'
      | Raised e st' \<Rightarrow>
          Normal (logging_error (ErrorWhileCopying e) (print_line (ErrorWhileCopying e) st'))
      | OutOfFuel \<Rightarrow> OutOfFuel)"

text \<open>The body of the inner loop of \<^verbatim>\<open>remove_files\<close>.\<close>

definition remove_file :: "path \<Rightarrow> path \<Rightarrow> path \<Rightarrow> name \<Rightarrow> state \<Rightarrow> state result" where
  "remove_file replica_folder source_folder root file st =
     (let replica_path = root @ [file];
          relative_path = os_path_relpath replica_path replica_folder;
          source_path = source_folder @ relative_path
      in if \<not> os_path_exists (fs st) source_path then
           (case os_remove (fs st) replica_path of
              Inl e \<Rightarrow> Raised e st
            | Inr t1 \<Rightarrow> Normal (logging_info (FileDeleted relative_path) (st\<lparr>fs := t1\<rparr>)))
         else Normal st)"

definition remove_files :: "nat \<Rightarrow> path \<Rightarrow> path \<Rightarrow> state \<Rightarrow> state result" where
  "remove_files n replica_folder source_folder st =
     (case os_walk n
             (\<lambda>root dirs files. for_each (remove_file replica_folder source_folder root) files)
             replica_folder st of
        Normal st' \<Rightarrow> Normal st'
      | Raised e st' \<Rightarrow>
          Normal (logging_error (ErrorWhileRemoving e) (print_line (ErrorWhileRemoving e) st'))
      | OutOfFuel \<Rightarrow> OutOfFuel)"

text \<open>
  \<^verbatim>\<open>synchronize_folders\<close> calls \<^verbatim>\<open>copy_files\<close> with the default algorithm, here the
  parameter \<open>md5\<close>.
\<close>

definition synchronize_folders ::
  "nat \<Rightarrow> path \<Rightarrow> path \<Rightarrow> (bytes \<Rightarrow> digest) \<Rightarrow> state \<Rightarrow> state result" where
  "synchronize_folders n source_folder replica_folder md5 st =
     (case copy_files n source_folder replica_folder md5 st of
        Normal st1 \<Rightarrow>
          (case remove_files n replica_folder source_folder st1 of
             Normal st2 \<Rightarrow> Normal (logging_info SynchronizationCompleted st2)
           | Raised e st2 \<Rightarrow>
               Normal (logging_error (ErrorDuringSynchronization e)
                         (print_line (ErrorDuringSynchronization e) st2))
           | OutOfFuel \<Rightarrow> OutOfFuel)
      | Raised e st1 \<Rightarrow>
          Normal (logging_error (ErrorDuringSynchronization e)
                    (print_line (ErrorDuringSynchronization e) st1))
      | OutOfFuel \<Rightarrow> OutOfFuel)"

section \<open>main\<close>




text \<open>
  \<open>main\<close> either returns before the loop or is in the loop; \<open>InLoop r\<close> holds the outcome
  of the first \<open>k\<close> iterations.
\<close>

datatype run = Returned state | InLoop "state result"


section \<open>Notions the properties are stated with\<close>

text \<open>A property of the state a statement ends in, whether it completed or raised.\<close>

fun holds_after :: "('s \<Rightarrow> bool) \<Rightarrow> 's result \<Rightarrow> bool" where
  "holds_after P (Normal s) = P s"
| "holds_after P (Raised e s) = P s"
| "holds_after P OutOfFuel = True"

text \<open>
  The files of a tree, as paths relative to its root, in the order in which a walk of the
  unchanged tree hands them to the loop: the files of a directory first, then those of its
  sub-directories in turn.
\<close>

fun walk_files :: "node \<Rightarrow> path list" and walk_subdirs :: "(name \<times> node) list \<Rightarrow> path list" where
  "walk_files (File c) = []"
| "walk_files (Dir es) =
     map (\<lambda>e. [fst e]) (filter (\<lambda>e. \<not> is_dir_node (snd e)) es) @ walk_subdirs es"
| "walk_subdirs [] = []"
| "walk_subdirs (e # es) = map ((#) (fst e)) (walk_files (snd e)) @ walk_subdirs es"

text \<open>Two folders are separate when neither lies in the other (nor are they the same).\<close>

definition separate :: "path \<Rightarrow> path \<Rightarrow> bool" where
  "separate a b = (\<not> prefix a b \<and> \<not> prefix b a)"

text \<open>The lines that report an exception.\<close>

fun is_error :: "message \<Rightarrow> bool" where
  "is_error (ErrorWhileCopying e) = True"
| "is_error (ErrorWhileRemoving e) = True"
| "is_error (ErrorDuringSynchronization e) = True"
| "is_error m = False"

text \<open>
  The inner loop bodies for a file given by its relative path: the walk of the source
  reaches the file \<open>rel\<close> in the directory \<open>source_folder @ butlast rel\<close> under the name
  \<open>last rel\<close>.
\<close>

definition copy_rel :: "path \<Rightarrow> path \<Rightarrow> (bytes \<Rightarrow> digest) \<Rightarrow> path \<Rightarrow> state \<Rightarrow> state result" where
  "copy_rel source_folder replica_folder hash_algorithm rel =
     copy_file source_folder replica_folder hash_algorithm (source_folder @ butlast rel) (last rel)"

definition remove_rel :: "path \<Rightarrow> path \<Rightarrow> path \<Rightarrow> state \<Rightarrow> state result" where
  "remove_rel replica_folder source_folder rel =
     remove_file replica_folder source_folder (replica_folder @ butlast rel) (last rel)"

text \<open>
  What one run of the body of a loop may have changed, from the state \<open>st\<close> it started in to
  the state \<open>s'\<close> it ended in (completed or raised), for the file \<open>sub @ [f]\<close>.
\<close>

definition copy_effect :: "path \<Rightarrow> path \<Rightarrow> path \<Rightarrow> name \<Rightarrow> state \<Rightarrow> state \<Rightarrow> bool" where
  "copy_effect S R sub f st s' \<longleftrightarrow>
      (\<forall>q. q \<noteq> R @ sub @ [f] \<longrightarrow> entry_at (fs st) q \<noteq> Absent \<longrightarrow>
            entry_at (fs s') q = entry_at (fs st) q)
    \<and> (entry_at (fs s') (R @ sub @ [f]) = entry_at (fs st) (R @ sub @ [f])
        \<or> (\<exists>c. entry_at (fs st) (S @ sub @ [f]) = IsFile c
              \<and> entry_at (fs s') (R @ sub @ [f]) = IsFile c
              \<and> entry_at (fs st) (R @ sub @ [f]) \<noteq> IsDir))
    \<and> (\<forall>q. entry_at (fs st) q = IsDir \<longrightarrow> entry_at (fs s') q = IsDir)
    \<and> (\<forall>q. entry_at (fs st) q \<noteq> Absent \<longrightarrow> entry_at (fs s') q \<noteq> Absent)
    \<and> (\<forall>q x. entry_at (fs s') q = IsFile x \<longrightarrow>
            q = R @ sub @ [f] \<or> entry_at (fs st) q = IsFile x)
    \<and> (\<forall>q. entry_at (fs s') q \<noteq> entry_at (fs st) q \<longrightarrow> prefix q (R @ sub @ [f]))
    \<and> (\<forall>q. \<not> prefix q (R @ sub @ [f]) \<longrightarrow> lookup (fs s') q = lookup (fs st) q)
    \<and> (logfile s' = logfile st \<and> console s' = console st
        \<or> logfile s' = logfile st @ [FileCopied (sub @ [f])]
          \<and> console s' = console st @ [FileCopied (sub @ [f])])
    \<and> (well_formed (fs st) \<longrightarrow> well_formed (fs s'))"

definition remove_effect :: "path \<Rightarrow> path \<Rightarrow> path \<Rightarrow> name \<Rightarrow> state \<Rightarrow> state \<Rightarrow> bool" where
  "remove_effect R S sub f st s' \<longleftrightarrow>
      (\<forall>q. q \<noteq> R @ sub @ [f] \<longrightarrow> entry_at (fs s') q = entry_at (fs st) q)
    \<and> (entry_at (fs s') (R @ sub @ [f]) = entry_at (fs st) (R @ sub @ [f])
        \<or> entry_at (fs s') (R @ sub @ [f]) = Absent
          \<and> (\<exists>c. entry_at (fs st) (R @ sub @ [f]) = IsFile c)
          \<and> entry_at (fs st) (S @ sub @ [f]) = Absent)
    \<and> (\<forall>q. \<not> prefix q (R @ sub @ [f]) \<longrightarrow> lookup (fs s') q = lookup (fs st) q)
    \<and> (logfile s' = logfile st \<and> console s' = console st
        \<or> logfile s' = logfile st @ [FileDeleted (sub @ [f])]
          \<and> console s' = console st @ [FileDeleted (sub @ [f])]
          \<and> entry_at (fs st) (S @ sub @ [f]) = Absent)
    \<and> (well_formed (fs st) \<longrightarrow> well_formed (fs s'))"

text \<open>The lines a statement added to the log file, from the state before to the state after.\<close>

definition new_lines :: "state \<Rightarrow> state \<Rightarrow> message list" where
  "new_lines st st' = drop (length (logfile st)) (logfile st')"

definition no_error :: "state \<Rightarrow> state \<Rightarrow> bool" where
  "no_error st st' = (filter is_error (new_lines st st') = [])"

text \<open>
  The test of \<open>copy_file\<close> on the tree \<open>t\<close>, for the file \<open>rel\<close> of the source: the replica
  holds nothing at the path, or a file with another digest.
\<close>

definition needs_copy :: "(bytes \<Rightarrow> digest) \<Rightarrow> node \<Rightarrow> path \<Rightarrow> path \<Rightarrow> path \<Rightarrow> bool" where
  "needs_copy H t S R rel =
     (case entry_at t (S @ rel) of
        IsFile c \<Rightarrow>
          (case entry_at t (R @ rel) of
             Absent \<Rightarrow> True
           | IsFile c' \<Rightarrow> H c \<noteq> H c'
           | IsDir \<Rightarrow> False)
      | _ \<Rightarrow> False)"

text \<open>
  What the copy phase keeps, from the state \<open>st\<close> it starts in to any state \<open>s\<close> it reaches:
  the source, the files of the replica that have no file in the source, the kind of
  every file and the presence of every entry; a file of the replica is one it had or one
  of the source; the log grows by lines of the copy phase.
\<close>

definition copy_keeps :: "path \<Rightarrow> path \<Rightarrow> state \<Rightarrow> state \<Rightarrow> bool" where
  "copy_keeps S R st s \<longleftrightarrow>
      (\<forall>q. prefix S q \<longrightarrow> lookup (fs s) q = lookup (fs st) q)
    \<and> (\<forall>rel c. entry_at (fs st) (R @ rel) = IsFile c \<and> (\<forall>x. entry_at (fs st) (S @ rel) \<noteq> IsFile x)
           \<longrightarrow> entry_at (fs s) (R @ rel) = IsFile c)
    \<and> (\<forall>q. (\<exists>c. entry_at (fs st) q = IsFile c) \<longrightarrow> (\<exists>c. entry_at (fs s) q = IsFile c))
    \<and> (\<forall>q. entry_at (fs st) q \<noteq> Absent \<longrightarrow> entry_at (fs s) q \<noteq> Absent)
    \<and> (\<forall>rel x. entry_at (fs s) (R @ rel) = IsFile x \<longrightarrow>
           entry_at (fs st) (R @ rel) = IsFile x \<or> entry_at (fs st) (S @ rel) = IsFile x)
    \<and> (well_formed (fs st) \<longrightarrow> well_formed (fs s))
    \<and> (\<exists>cs. logfile s = logfile st @ cs \<and> set cs \<subseteq> range FileCopied \<union> range ErrorWhileCopying)"

text \<open>The depth of the tree below a path: the bound a walk from the path needs.\<close>

definition depth :: "node \<Rightarrow> path \<Rightarrow> nat" where
  "depth t p = (case lookup t p of None \<Rightarrow> 0 | Some N \<Rightarrow> height N)"

text \<open>The files below a path, relative to it, in the order of the walk.\<close>

definition files_below :: "node \<Rightarrow> path \<Rightarrow> path list" where
  "files_below t p = (case lookup t p of None \<Rightarrow> [] | Some N \<Rightarrow> walk_files N)"

text \<open>A run starts with the tree \<open>t\<close> and nothing logged or printed.\<close>

definition fresh :: "node \<Rightarrow> state" where
  "fresh t = \<lparr>fs = t, logfile = [], console = []\<rparr>"

text \<open>
  A source \<^verbatim>\<open>/s\<close> and a replica \<^verbatim>\<open>/r\<close>: \<^verbatim>\<open>a.txt\<close> differs in the replica and \<^verbatim>\<open>old.txt\<close> is
  in the replica only.
\<close>

definition changed_and_stale :: node where
  "changed_and_stale =
     Dir [(''s'', Dir [(''a.txt'', File ''hello'')]),
          (''r'', Dir [(''a.txt'', File ''hullo''), (''old.txt'', File ''stale'')])]"





text \<open>
  The source holds \<^verbatim>\<open>d1/x\<close> and \<^verbatim>\<open>d2/y\<close>; the replica holds a file \<^verbatim>\<open>d1\<close> and nothing
  else.
\<close>

definition file_in_the_way :: node where
  "file_in_the_way =
     Dir [(''s'', Dir [(''d1'', Dir [(''x'', File ''1'')]), (''d2'', Dir [(''y'', File ''2'')])]),
          (''r'', Dir [(''d1'', File ''old'')])]"


section \<open>Lookups after a change of the tree\<close>

lemma lookup_append:
  "lookup t (p @ r) = (case lookup t p of None \<Rightarrow> None | Some n \<Rightarrow> lookup n r)"
proof (induction t p rule: lookup.induct)
  case (1 t)
  then show ?case by simp
next
  case (2 c x xs)
  then show ?case by simp
next
  case (3 es x xs)
  then show ?case by (simp split: option.splits)
qed

lemma lookup_File_Cons: "lookup (File c) p = (if p = [] then Some (File c) else None)"
  by (cases p) simp_all

lemma lookup_put_incomparable:
  "\<not> prefix p q \<Longrightarrow> \<not> prefix q p \<Longrightarrow> lookup (put p v t) q = lookup t q"
proof (induction p v t arbitrary: q rule: put.induct)
  case (1 v t)
  then show ?case by simp
next
  case (2 x xs v c)
  then show ?case by simp
next
  case (3 x xs v es)
  then obtain y ys where q: "q = y # ys" by (cases q) auto
  show ?case
  proof (cases "y = x")
    case True
    with 3 q show ?thesis
      by (auto simp: update_conv' split: option.splits)
  next
    case False
    with q show ?thesis
      by (auto simp: update_conv' split: option.splits)
  qed
qed

lemma lookup_put_below:
  "p \<noteq> [] \<Longrightarrow> lookup t (butlast p) = Some (Dir es) \<Longrightarrow> lookup (put p v t) (p @ r) = lookup v r"
proof (induction p v t arbitrary: es rule: put.induct)
  case (1 v t)
  then show ?case by simp
next
  case (2 x xs v c)
  then show ?case by (simp add: lookup_File_Cons split: if_splits)
next
  case (3 x xs v es')
  then show ?case
    by (auto simp: update_conv' split: option.splits if_splits)
qed

lemma lookup_put_above:
  "r \<noteq> [] \<Longrightarrow> lookup (put (q @ r) v t) q = map_option (put r v) (lookup t q)"
proof (induction q arbitrary: t)
  case Nil
  then show ?case by simp
next
  case (Cons x xs)
  then show ?case
    by (cases t) (auto simp: update_conv' split: option.splits)
qed

lemma lookup_unlink_incomparable:
  "\<not> prefix p q \<Longrightarrow> \<not> prefix q p \<Longrightarrow> lookup (unlink p t) q = lookup t q"
proof (induction p t arbitrary: q rule: unlink.induct)
  case (1 t)
  then show ?case by simp
next
  case (2 x xs c)
  then show ?case by simp
next
  case (3 x xs es)
  then obtain y ys where q: "q = y # ys" by (cases q) auto
  show ?case
  proof (cases "y = x")
    case True
    with 3 q show ?thesis
      by (auto simp: update_conv' delete_conv' split: option.splits)
  next
    case False
    with q show ?thesis
      by (auto simp: update_conv' delete_conv' split: option.splits)
  qed
qed

lemma lookup_unlink_above:
  "r \<noteq> [] \<Longrightarrow> lookup (unlink (q @ r) t) q = map_option (unlink r) (lookup t q)"
proof (induction q arbitrary: t)
  case Nil
  then show ?case by simp
next
  case (Cons x xs)
  then show ?case
    by (cases t) (auto simp: update_conv' delete_conv' split: option.splits)
qed

lemma lookup_unlink_at:
  "p \<noteq> [] \<Longrightarrow> lookup t p = Some (File c) \<Longrightarrow> lookup (unlink p t) (p @ r) = None"
proof (induction p t rule: unlink.induct)
  case (1 t)
  then show ?case by simp
next
  case (2 x xs c')
  then show ?case by simp
next
  case (3 x xs es)
  then show ?case
    by (auto simp: update_conv' delete_conv' split: option.splits if_splits)
qed

subsection \<open>What a path holds after a change\<close>

lemma entry_at_simps:
  "lookup t p = None \<Longrightarrow> entry_at t p = Absent"
  "lookup t p = Some (File c) \<Longrightarrow> entry_at t p = IsFile c"
  "lookup t p = Some (Dir es) \<Longrightarrow> entry_at t p = IsDir"
  by (simp_all add: entry_at_def)

lemma entry_at_Absent_iff: "entry_at t p = Absent \<longleftrightarrow> lookup t p = None"
  by (simp add: entry_at_def split: option.splits node.splits)

lemma entry_at_IsFile_iff: "entry_at t p = IsFile c \<longleftrightarrow> lookup t p = Some (File c)"
  by (simp add: entry_at_def split: option.splits node.splits)

lemma entry_at_IsDir_iff: "entry_at t p = IsDir \<longleftrightarrow> (\<exists>es. lookup t p = Some (Dir es))"
  by (simp add: entry_at_def split: option.splits node.splits)

lemma put_keeps_kind: "r \<noteq> [] \<Longrightarrow> is_dir_node (put r v n) = is_dir_node n"
  by (cases r; cases n) (auto split: option.splits)

lemma unlink_keeps_kind: "is_dir_node (unlink r n) = is_dir_node n"
  by (cases r; cases n) (auto split: option.splits)

lemma put_File: "r \<noteq> [] \<Longrightarrow> put r v (File c) = File c"
  by (cases r) auto

lemma unlink_File: "unlink r (File c) = File c"
  by (cases r) auto

lemma put_Dir: "r \<noteq> [] \<Longrightarrow> \<exists>es'. put r v (Dir es) = Dir es'"
  by (cases r) (auto split: option.splits)

lemma unlink_Dir: "\<exists>es'. unlink r (Dir es) = Dir es'"
  by (cases r) (auto split: option.splits)

lemma entry_at_put_above:
  assumes "r \<noteq> []"
  shows "entry_at (put (q @ r) v t) q = entry_at t q"
proof (cases "lookup t q")
  case None
  then show ?thesis using assms by (simp add: entry_at_def lookup_put_above)
next
  case (Some n)
  then show ?thesis
  proof (cases n)
    case (File c)
    with Some assms show ?thesis by (simp add: entry_at_def lookup_put_above put_File)
  next
    case (Dir es)
    from put_Dir[OF assms, of v es] obtain es' where "put r v (Dir es) = Dir es'" by blast
    with Some Dir assms show ?thesis by (simp add: entry_at_def lookup_put_above)
  qed
qed

lemma entry_at_unlink_above:
  assumes "r \<noteq> []"
  shows "entry_at (unlink (q @ r) t) q = entry_at t q"
proof (cases "lookup t q")
  case None
  then show ?thesis using assms by (simp add: entry_at_def lookup_unlink_above)
next
  case (Some n)
  then show ?thesis
  proof (cases n)
    case (File c)
    with Some assms show ?thesis by (simp add: entry_at_def lookup_unlink_above unlink_File)
  next
    case (Dir es)
    from unlink_Dir[of r es] obtain es' where "unlink r (Dir es) = Dir es'" by blast
    with Some Dir assms show ?thesis by (simp add: entry_at_def lookup_unlink_above)
  qed
qed

lemma lookup_below_not_dir:
  "r \<noteq> [] \<Longrightarrow> entry_at t p \<noteq> IsDir \<Longrightarrow> lookup t (p @ r) = None"
  by (cases r) (auto simp: lookup_append entry_at_def split: option.splits node.splits)

lemma path_cases:
  obtains (same) "q = p"
  | (below) r where "q = p @ r" "r \<noteq> []"
  | (above) r where "p = q @ r" "r \<noteq> []"
  | (apart) "\<not> prefix p q" "\<not> prefix q p"
  by (metis append_Nil2 prefix_def)

lemma entry_at_put_new:
  assumes p: "p \<noteq> []" and par: "lookup t (butlast p) = Some (Dir es)"
    and old: "entry_at t p \<noteq> IsDir" and v: "v = File c \<or> v = Dir []"
  shows "entry_at (put p v t) q = (if q = p then entry_at v [] else entry_at t q)"
proof (cases q p rule: path_cases)
  case same
  then show ?thesis using lookup_put_below[OF p par, of v "[]"] by (simp add: entry_at_def)
next
  case (below r)
  have "lookup v r = None" using v below(2) by (cases r) auto
  then show ?thesis using lookup_put_below[OF p par, of v r] below lookup_below_not_dir[OF below(2) old]
    by (simp add: entry_at_def)
next
  case (above r)
  then show ?thesis using entry_at_put_above[of r q v t] by auto
next
  case apart
  then have "q \<noteq> p" by auto
  then show ?thesis using lookup_put_incomparable[OF apart] by (simp add: entry_at_def)
qed

lemma lookup_put_new:
  assumes p: "p \<noteq> []" and par: "lookup t (butlast p) = Some (Dir es)"
    and old: "entry_at t p \<noteq> IsDir" and v: "v = File c \<or> v = Dir []"
    and q: "\<not> prefix q p"
  shows "lookup (put p v t) q = lookup t q"
proof (cases q p rule: path_cases)
  case same
  then show ?thesis using q by simp
next
  case (below r)
  have "lookup v r = None" using v below(2) by (cases r) auto
  then show ?thesis using lookup_put_below[OF p par, of v r] below lookup_below_not_dir[OF below(2) old]
    by simp
next
  case (above r)
  then show ?thesis using q by simp
next
  case apart
  then show ?thesis using lookup_put_incomparable[OF apart] by simp
qed

lemma entry_at_unlink_file:
  assumes p: "p \<noteq> []" and old: "lookup t p = Some (File c)"
  shows "entry_at (unlink p t) q = (if q = p then Absent else entry_at t q)"
proof (cases q p rule: path_cases)
  case same
  then show ?thesis using lookup_unlink_at[OF p old, of "[]"] by (simp add: entry_at_def)
next
  case (below r)
  have "entry_at t p \<noteq> IsDir" using old by (simp add: entry_at_def)
  then show ?thesis using lookup_unlink_at[OF p old, of r] below lookup_below_not_dir[OF below(2)]
    by (simp add: entry_at_def)
next
  case (above r)
  then show ?thesis using entry_at_unlink_above[of r q t] by auto
next
  case apart
  then have "q \<noteq> p" by auto
  then show ?thesis using lookup_unlink_incomparable[OF apart] by (simp add: entry_at_def)
qed

lemma lookup_unlink_file:
  assumes p: "p \<noteq> []" and old: "lookup t p = Some (File c)" and q: "\<not> prefix q p"
  shows "lookup (unlink p t) q = lookup t q"
proof (cases q p rule: path_cases)
  case same
  then show ?thesis using q by simp
next
  case (below r)
  have "entry_at t p \<noteq> IsDir" using old by (simp add: entry_at_def)
  then show ?thesis using lookup_unlink_at[OF p old, of r] below lookup_below_not_dir[OF below(2)]
    by simp
next
  case (above r)
  then show ?thesis using q by simp
next
  case apart
  then show ?thesis using lookup_unlink_incomparable[OF apart] by simp
qed

section \<open>The calls, one by one\<close>

subsection \<open>mkdir, makedirs\<close>

lemma os_mkdir_Inr:
  assumes "os_mkdir t p = Inr t'"
  shows "p \<noteq> []" and "entry_at t p = Absent" and "\<exists>es. lookup t (butlast p) = Some (Dir es)"
    and "t' = put p (Dir []) t"
  using assms
  by (auto simp: os_mkdir_def entry_at_def split: if_splits option.splits node.splits)

lemma os_mkdir_entry:
  assumes "os_mkdir t p = Inr t'"
  shows "entry_at t' q = (if q = p then IsDir else entry_at t q)"
proof -
  from os_mkdir_Inr[OF assms] obtain es where
    h: "p \<noteq> []" "entry_at t p = Absent" "lookup t (butlast p) = Some (Dir es)" "t' = put p (Dir []) t"
    by blast
  have "entry_at t p \<noteq> IsDir" using h(2) by simp
  from entry_at_put_new[OF h(1) h(3) this, of "Dir []" undefined q] h(4)
  show ?thesis by (simp add: entry_at_def)
qed

lemma os_mkdir_lookup:
  assumes "os_mkdir t p = Inr t'" and "\<not> prefix q p"
  shows "lookup t' q = lookup t q"
proof -
  from os_mkdir_Inr[OF assms(1)] obtain es where
    h: "p \<noteq> []" "entry_at t p = Absent" "lookup t (butlast p) = Some (Dir es)" "t' = put p (Dir []) t"
    by blast
  have "entry_at t p \<noteq> IsDir" using h(2) by simp
  from lookup_put_new[OF h(1) h(3) this _ assms(2), of "Dir []" undefined] h(4)
  show ?thesis by simp
qed

lemma os_path_isdir_entry: "os_path_isdir t p \<longleftrightarrow> entry_at t p = IsDir"
  by (simp add: os_path_isdir_def entry_at_def split: option.splits node.splits)

lemma os_path_exists_entry: "os_path_exists t p \<longleftrightarrow> entry_at t p \<noteq> Absent"
  by (simp add: os_path_exists_def entry_at_def split: option.splits node.splits)

lemma prefix_butlast_iff: "p \<noteq> [] \<Longrightarrow> prefix q p \<longleftrightarrow> q = p \<or> prefix q (butlast p)"
  by (metis append_butlast_last_id prefix_snoc)

lemma os_makedirs_Nil: "os_makedirs t [] = Inr t"
  by (simp add: os_makedirs.simps)

lemma lookup_child_of_absent:
  "p \<noteq> [] \<Longrightarrow> lookup t (butlast p) = None \<Longrightarrow> lookup t p = None"
  using lookup_append[of t "butlast p" "[last p]"] by simp

lemma os_makedirs_cases:
  assumes "os_makedirs t p = Inr t'" and "p \<noteq> []"
  obtains t1 where
    "if os_path_exists t (butlast p) then t1 = t else os_makedirs t (butlast p) = Inr t1"
    "os_mkdir t1 p = Inr t' \<or> (os_path_isdir t1 p \<and> t' = t1)"
proof (cases "os_path_exists t (butlast p)")
  case True
  with assms have "os_mkdir t p = Inr t' \<or> (os_path_isdir t p \<and> t' = t)"
    by (subst (asm) os_makedirs.simps) (auto split: sum.splits if_splits)
  with True that show ?thesis by auto
next
  case False
  show ?thesis
  proof (cases "os_makedirs t (butlast p)")
    case (Inl e)
    with False assms have e: "e = IOError EEXIST"
      and m: "os_mkdir t p = Inr t' \<or> (os_path_isdir t p \<and> t' = t)"
      by (subst (asm) os_makedirs.simps; auto split: sum.splits if_splits)+
    from False have "lookup t (butlast p) = None" by (simp add: os_path_exists_def)
    then have "lookup t p = None" using assms(2) by (rule lookup_child_of_absent[rotated])
    with \<open>lookup t (butlast p) = None\<close> m have False
      by (auto simp: os_mkdir_def os_path_isdir_def)
    then show ?thesis ..
  next
    case (Inr t1)
    with False assms have "os_mkdir t1 p = Inr t' \<or> (os_path_isdir t1 p \<and> t' = t1)"
      by (subst (asm) os_makedirs.simps) (auto split: sum.splits if_splits)
    with False Inr that show ?thesis by auto
  qed
qed

lemma exists_prefix:
  "os_path_exists t p \<Longrightarrow> prefix q p \<Longrightarrow> entry_at t q \<noteq> Absent"
  by (auto simp: os_path_exists_def entry_at_Absent_iff prefix_def lookup_append
      split: option.splits)

lemma os_makedirs_entry:
  "os_makedirs t p = Inr t' \<Longrightarrow>
   entry_at t' q = (if prefix q p \<and> entry_at t q = Absent then IsDir else entry_at t q)"
proof (induction t p arbitrary: t' q rule: os_makedirs.induct)
  case (1 t p)
  show ?case
  proof (cases "p = []")
    case True
    with 1(2) show ?thesis
      by (auto simp: os_makedirs_Nil entry_at_def split: node.splits)
  next
    case False
    from os_makedirs_cases[OF 1(2) False] obtain t1 where
      t1: "if os_path_exists t (butlast p) then t1 = t else os_makedirs t (butlast p) = Inr t1"
      and m: "os_mkdir t1 p = Inr t' \<or> (os_path_isdir t1 p \<and> t' = t1)"
      by blast
    have e1: "entry_at t1 q = (if prefix q (butlast p) \<and> entry_at t q = Absent then IsDir else entry_at t q)"
      for q
    proof (cases "os_path_exists t (butlast p)")
      case True
      with t1 exists_prefix[OF True] show ?thesis by auto
    next
      case F: False
      with t1 have "os_makedirs t (butlast p) = Inr t1" by simp
      from 1(1)[OF False F this] show ?thesis .
    qed
    have np: "\<not> prefix p (butlast p)"
      using False prefix_length_le[of p "butlast p"] by (cases p) auto
    from m show ?thesis
    proof
      assume mk: "os_mkdir t1 p = Inr t'"
      from os_mkdir_Inr(2)[OF mk] have "entry_at t1 p = Absent" .
      with e1[of p] np have "entry_at t p = Absent" by (auto split: if_splits)
      with os_mkdir_entry[OF mk, of q] e1[of q] False show ?thesis
        by (auto simp: prefix_butlast_iff)
    next
      assume "os_path_isdir t1 p \<and> t' = t1"
      then have d: "entry_at t1 p = IsDir" and eq: "t' = t1" by (auto simp: os_path_isdir_entry)
      with e1[of p] np have "entry_at t p = IsDir" by (auto split: if_splits)
      with e1[of q] eq False show ?thesis
        by (auto simp: prefix_butlast_iff)
    qed
  qed
qed

lemma os_makedirs_lookup:
  "os_makedirs t p = Inr t' \<Longrightarrow> \<not> prefix q p \<Longrightarrow> lookup t' q = lookup t q"
proof (induction t p arbitrary: t' rule: os_makedirs.induct)
  case (1 t p)
  show ?case
  proof (cases "p = []")
    case True
    with 1(2) show ?thesis by (simp add: os_makedirs_Nil)
  next
    case False
    from os_makedirs_cases[OF 1(2) False] obtain t1 where
      t1: "if os_path_exists t (butlast p) then t1 = t else os_makedirs t (butlast p) = Inr t1"
      and m: "os_mkdir t1 p = Inr t' \<or> (os_path_isdir t1 p \<and> t' = t1)"
      by blast
    from 1(3) False have nq: "\<not> prefix q (butlast p)" by (simp add: prefix_butlast_iff)
    have l1: "lookup t1 q = lookup t q"
    proof (cases "os_path_exists t (butlast p)")
      case True
      with t1 show ?thesis by simp
    next
      case F: False
      with t1 have "os_makedirs t (butlast p) = Inr t1" by simp
      from 1(1)[OF False F this nq] show ?thesis .
    qed
    from m show ?thesis
    proof
      assume "os_mkdir t1 p = Inr t'"
      from os_mkdir_lookup[OF this 1(3)] l1 show ?thesis by simp
    next
      assume "os_path_isdir t1 p \<and> t' = t1"
      with l1 show ?thesis by simp
    qed
  qed
qed

lemma os_makedirs_isdir:
  assumes "os_makedirs t p = Inr t'" and "p \<noteq> []"
  shows "entry_at t' p = IsDir"
proof -
  from os_makedirs_cases[OF assms] obtain t1 where
    "os_mkdir t1 p = Inr t' \<or> (os_path_isdir t1 p \<and> t' = t1)" by blast
  then show ?thesis using os_mkdir_entry[of t1 p t' p] by (auto simp: os_path_isdir_entry)
qed

subsection \<open>Files\<close>

lemma write_file_Inr:
  assumes "write_file t p c = Inr t'"
  shows "p \<noteq> []" and "entry_at t p \<noteq> IsDir" and "\<exists>es. lookup t (butlast p) = Some (Dir es)"
    and "t' = put p (File c) t"
  using assms
  by (auto simp: write_file_def entry_at_def split: if_splits option.splits node.splits)

lemma write_file_entry:
  assumes "write_file t p c = Inr t'"
  shows "entry_at t' q = (if q = p then IsFile c else entry_at t q)"
proof -
  from write_file_Inr[OF assms] obtain es where
    h: "p \<noteq> []" "entry_at t p \<noteq> IsDir" "lookup t (butlast p) = Some (Dir es)" "t' = put p (File c) t"
    by blast
  from entry_at_put_new[OF h(1) h(3) h(2), of "File c" c q] h(4)
  show ?thesis by (simp add: entry_at_def)
qed

lemma write_file_lookup:
  assumes "write_file t p c = Inr t'" and "\<not> prefix q p"
  shows "lookup t' q = lookup t q"
proof -
  from write_file_Inr[OF assms(1)] obtain es where
    h: "p \<noteq> []" "entry_at t p \<noteq> IsDir" "lookup t (butlast p) = Some (Dir es)" "t' = put p (File c) t"
    by blast
  from lookup_put_new[OF h(1) h(3) h(2) _ assms(2), of "File c" c] h(4)
  show ?thesis by simp
qed

lemma write_file_ok:
  assumes "p \<noteq> []" and "entry_at t (butlast p) = IsDir" and "entry_at t p \<noteq> IsDir"
  shows "write_file t p c = Inr (put p (File c) t)"
  using assms
  by (auto simp: write_file_def entry_at_def split: option.splits node.splits)

lemma read_file_entry: "read_file t p = Inr c \<longleftrightarrow> entry_at t p = IsFile c"
  by (auto simp: read_file_def entry_at_def split: option.splits node.splits)

lemma shutil_copy2_Inr:
  assumes "shutil_copy2 t src dst = Inr t'" and "entry_at t dst \<noteq> IsDir"
  shows "\<exists>c. entry_at t src = IsFile c \<and> write_file t dst c = Inr t'"
  using assms
  by (auto simp: shutil_copy2_def os_path_isdir_entry read_file_entry Let_def
      split: if_splits sum.splits)

lemma os_remove_Inr:
  assumes "os_remove t p = Inr t'"
  shows "\<exists>c. lookup t p = Some (File c)" and "t' = unlink p t"
  using assms by (auto simp: os_remove_def split: option.splits node.splits)

lemma os_remove_entry:
  assumes "os_remove t p = Inr t'" and "p \<noteq> []"
  shows "entry_at t' q = (if q = p then Absent else entry_at t q)"
  using os_remove_Inr[OF assms(1)] entry_at_unlink_file[OF assms(2)] by auto

lemma os_remove_lookup:
  assumes "os_remove t p = Inr t'" and "p \<noteq> []" and "\<not> prefix q p"
  shows "lookup t' q = lookup t q"
  using os_remove_Inr[OF assms(1)] lookup_unlink_file[OF assms(2) _ assms(3)] by auto

lemma os_remove_ok: "entry_at t p = IsFile c \<Longrightarrow> os_remove t p = Inr (unlink p t)"
  by (simp add: os_remove_def entry_at_IsFile_iff)

section \<open>The fingerprint\<close>

lemma file_read_length:
  "file_read f n = Inr (d, f') \<Longrightarrow>
   d = take n (drop (pos f) (data f)) \<and> pos f' = pos f + length d \<and> data f' = data f \<and> fault f' = fault f"
  by (auto simp: file_read_def Let_def split: option.splits if_splits)

lemma hash_loop_fault:
  "fault f = Some k \<Longrightarrow> pos f \<le> k \<Longrightarrow> k < length (data f) \<Longrightarrow> hash_loop f h = Inl (IOError EIO)"
proof (induction f h rule: hash_loop.induct)
  case (1 f hasher)
  show ?case
  proof (cases "file_read f 65536")
    case (Inl e)
    then have "e = IOError EIO"
      by (auto simp: file_read_def Let_def split: option.splits if_splits)
    with Inl show ?thesis by (subst hash_loop.simps) simp
  next
    case (Inr r)
    obtain d f' where r: "r = (d, f')" by (cases r)
    from file_read_length[OF Inr[unfolded r]]
    have d: "d = take 65536 (drop (pos f) (data f))" and f': "pos f' = pos f + length d"
      "data f' = data f" "fault f' = fault f" by auto
    from Inr r 1(2) have nk: "\<not> (pos f \<le> k \<and> k < pos f + length d)"
      by (auto simp: file_read_def Let_def split: option.splits if_splits)
    from 1(3,4) have "d \<noteq> []" using d by auto
    moreover have "hash_loop f' (hasher @ [d]) = Inl (IOError EIO)"
      using 1(1)[OF Inr, unfolded r] \<open>d \<noteq> []\<close> f' 1(2,3,4) nk by auto
    ultimately show ?thesis using Inr r by (subst hash_loop.simps) simp
  qed
qed

lemma hash_loop_Inr:
  "hash_loop f h = Inr hs \<Longrightarrow>
   \<exists>cs. hs = h @ cs \<and> concat cs = drop (pos f) (data f) \<and>
        (\<forall>c\<in>set cs. c \<noteq> [] \<and> length c \<le> 65536) \<and> (\<forall>c\<in>set (butlast cs). length c = 65536)"
proof (induction f h arbitrary: hs rule: hash_loop.induct)
  case (1 f hasher)
  from 1(2) obtain r where Inr: "file_read f 65536 = Inr r"
    by (subst (asm) hash_loop.simps) (auto split: sum.splits)
  obtain d f' where r: "r = (d, f')" by (cases r)
  from file_read_length[OF Inr[unfolded r]]
  have d: "d = take 65536 (drop (pos f) (data f))" and f': "pos f' = pos f + length d"
    "data f' = data f" "fault f' = fault f" by auto
  show ?case
  proof (cases "d = []")
    case True
    with 1(2) Inr r have "hs = hasher" by (subst (asm) hash_loop.simps) simp
    moreover from True d have "drop (pos f) (data f) = []" by auto
    ultimately show ?thesis by simp
  next
    case False
    with 1(2) Inr r have "hash_loop f' (hasher @ [d]) = Inr hs"
      by (subst (asm) hash_loop.simps) simp
    with 1(1)[OF Inr, of hs] r False have "\<exists>cs. hs = (hasher @ [d]) @ cs \<and>
        concat cs = drop (pos f') (data f') \<and> (\<forall>c\<in>set cs. c \<noteq> [] \<and> length c \<le> 65536) \<and>
        (\<forall>c\<in>set (butlast cs). length c = 65536)"
      by simp
    then obtain cs where
      cs: "hs = (hasher @ [d]) @ cs" "concat cs = drop (pos f') (data f')"
      "\<forall>c\<in>set cs. c \<noteq> [] \<and> length c \<le> 65536" "\<forall>c\<in>set (butlast cs). length c = 65536"
      by auto
    have cat: "concat (d # cs) = drop (pos f) (data f)"
    proof -
      let ?X = "drop (pos f) (data f)"
      have "drop (pos f') (data f') = drop (length d) ?X"
        using f' by (simp add: add.commute)
      also have "\<dots> = drop 65536 ?X"
      proof (cases "length ?X \<le> 65536")
        case True
        then have "length d = length ?X" unfolding d by simp
        with True show ?thesis by simp
      next
        case False
        then have "length d = 65536" unfolding d by simp
        then show ?thesis by simp
      qed
      finally have "concat cs = drop 65536 ?X" using cs(2) by simp
      then have "concat (d # cs) = take 65536 ?X @ drop 65536 ?X" using d by simp
      then show ?thesis by (simp only: append_take_drop_id)
    qed
    have full: "cs \<noteq> [] \<Longrightarrow> length d = 65536"
    proof -
      assume "cs \<noteq> []"
      then have "concat cs \<noteq> []" using cs(3) by (cases cs) auto
      with cs(2) f' have "pos f + length d < length (data f)" by auto
      with d show ?thesis by auto
    qed
    have "hs = hasher @ (d # cs)" using cs(1) by simp
    moreover have "\<forall>c\<in>set (d # cs). c \<noteq> [] \<and> length c \<le> 65536"
      using cs(3) False d by auto
    moreover have "\<forall>c\<in>set (butlast (d # cs)). length c = 65536"
      using cs(4) full by auto
    ultimately show ?thesis using cat by blast
  qed
qed

lemma hash_loop_total:
  "\<not> (\<exists>k. fault f = Some k \<and> pos f \<le> k \<and> k < length (data f)) \<Longrightarrow> \<exists>hs. hash_loop f h = Inr hs"
proof (induction f h rule: hash_loop.induct)
  case (1 f hasher)
  let ?d = "take 65536 (drop (pos f) (data f))"
  let ?f' = "f\<lparr>pos := pos f + length ?d\<rparr>"
  have rd: "file_read f 65536 = Inr (?d, ?f')"
    using 1(2) by (auto simp: file_read_def Let_def split: option.splits)
  show ?case
  proof (cases "?d = []")
    case True
    with rd show ?thesis by (subst hash_loop.simps) simp
  next
    case False
    have "\<exists>hs. hash_loop ?f' (hasher @ [?d]) = Inr hs"
      using 1(1)[OF rd] False 1(2) by auto
    with rd False show ?thesis by (subst hash_loop.simps) simp
  qed
qed

lemma hash_loop_Inl:
  assumes "hash_loop f h = Inl e"
  shows "e = IOError EIO \<and> (\<exists>k. fault f = Some k \<and> pos f \<le> k \<and> k < length (data f))"
proof -
  have ex: "\<exists>k. fault f = Some k \<and> pos f \<le> k \<and> k < length (data f)"
    using hash_loop_total[of f h] assms by auto
  then obtain k where "fault f = Some k" "pos f \<le> k" "k < length (data f)" by blast
  from hash_loop_fault[OF this, of h] assms ex show ?thesis by simp
qed

lemma calculate_hash_file:
  assumes "entry_at t p = IsFile c"
  shows "calculate_hash t p H = Inr (H c)"
proof -
  let ?f = "\<lparr>data = c, pos = 0, fault = None\<rparr>"
  have o: "open_rb t p = Inr ?f" using assms by (simp add: open_rb_def entry_at_IsFile_iff)
  from hash_loop_total[of ?f "[]"] obtain hs where hs: "hash_loop ?f [] = Inr hs" by auto
  from hash_loop_Inr[OF hs] have "concat hs = c" by auto
  with o hs show ?thesis by (simp add: calculate_hash_def)
qed

lemma calculate_hash_not_file:
  "entry_at t p = Absent \<Longrightarrow> calculate_hash t p H = Inl (IOError ENOENT)"
  "entry_at t p = IsDir \<Longrightarrow> calculate_hash t p H = Inl (IOError EISDIR)"
  by (auto simp: calculate_hash_def open_rb_def entry_at_Absent_iff entry_at_IsDir_iff)

lemma calculate_hash_eval [code]:
  "calculate_hash t p H =
     (case entry_at t p of
        Absent \<Rightarrow> Inl (IOError ENOENT)
      | IsFile c \<Rightarrow> Inr (H c)
      | IsDir \<Rightarrow> Inl (IOError EISDIR))"
  using calculate_hash_not_file[of t p H] calculate_hash_file[of t p _ H]
  by (cases "entry_at t p") auto



section \<open>Loops and their bodies\<close>

subsection \<open>Loops\<close>

lemma for_each_append:
  "for_each body (xs @ ys) st =
     (case for_each body xs st of
        Normal st' \<Rightarrow> for_each body ys st'
      | Raised e st' \<Rightarrow> Raised e st'
      | OutOfFuel \<Rightarrow> OutOfFuel)"
  by (induction xs arbitrary: st) (auto split: result.splits)

lemma for_each_map: "for_each body (map f xs) st = for_each (\<lambda>x. body (f x)) xs st"
  by (induction xs arbitrary: st) (auto split: result.splits)

lemma for_each_cong:
  "(\<And>x s. x \<in> set xs \<Longrightarrow> f x s = g x s) \<Longrightarrow> for_each f xs st = for_each g xs st"
  by (induction xs arbitrary: st) (auto split: result.splits)

lemma for_each_invariant:
  assumes "\<And>x s. x \<in> set xs \<Longrightarrow> I s \<Longrightarrow> holds_after I (body x s)" and "I st"
  shows "holds_after I (for_each body xs st)"
  using assms
proof (induction xs arbitrary: st)
  case Nil
  then show ?case by simp
next
  case (Cons x xs)
  from Cons.prems(1)[of x st] Cons.prems(2) have h: "holds_after I (body x st)" by simp
  show ?case
  proof (cases "body x st")
    case (Normal s)
    with h have "I s" by simp
    with Cons.IH[of s] Cons.prems(1) Normal show ?thesis by simp
  next
    case (Raised e s)
    with h show ?thesis by simp
  next
    case OutOfFuel
    then show ?thesis by simp
  qed
qed

lemma os_walk_invariant:
  assumes body: "\<And>root dirs files s. prefix dir0 root \<Longrightarrow> I s \<Longrightarrow>
      scandir (fs s) root = Some (dirs, files) \<Longrightarrow> holds_after I (body root dirs files s)"
    and "I st" and "prefix dir0 dir"
  shows "holds_after I (os_walk n body dir st)"
  using assms(2,3)
proof (induction n arbitrary: dir st)
  case 0
  then show ?case by simp
next
  case (Suc n)
  show ?case
  proof (cases "scandir (fs st) dir")
    case None
    with Suc.prems show ?thesis by simp
  next
    case (Some df)
    obtain dirs files where df: "df = (dirs, files)" by (cases df)
    from body[OF Suc.prems(2) Suc.prems(1) Some[unfolded df]]
    have h: "holds_after I (body dir dirs files st)" .
    show ?thesis
    proof (cases "body dir dirs files st")
      case (Normal s)
      with h have "I s" by simp
      have "holds_after I (for_each (\<lambda>d s. os_walk n body (dir @ [d]) s) dirs s)"
      proof (rule for_each_invariant[where I = I])
        fix d s' assume "I s'"
        with Suc.prems(2) show "holds_after I (os_walk n body (dir @ [d]) s')"
          by (intro Suc.IH) auto
      next
        show "I s" by fact
      qed
      with Some df Normal show ?thesis by simp
    next
      case (Raised e s)
      with h Some df show ?thesis by simp
    next
      case OutOfFuel
      with Some df show ?thesis by simp
    qed
  qed
qed

subsection \<open>Relative paths\<close>

lemma common_prefix_append: "common_prefix (s @ r) s = s"
  by (induction s) auto

lemma os_path_relpath_append [simp]: "os_path_relpath (s @ r) s = r"
  by (simp add: os_path_relpath_def common_prefix_append)

lemma os_path_relpath_snoc [simp]: "os_path_relpath (s @ sub @ [f]) s = sub @ [f]"
  using os_path_relpath_append[of s "sub @ [f]"] by simp

subsection \<open>The loop bodies\<close>

lemma calculate_hash_Inr:
  assumes "calculate_hash t p H = Inr h"
  shows "\<exists>c. entry_at t p = IsFile c \<and> h = H c"
proof (cases "entry_at t p")
  case Absent
  with calculate_hash_not_file(1)[OF this, of H] assms show ?thesis by simp
next
  case (IsFile c)
  with calculate_hash_file[OF this, of H] assms show ?thesis by simp
next
  case IsDir
  with calculate_hash_not_file(2)[OF this, of H] assms show ?thesis by simp
qed

lemma are_files_different_Inr:
  assumes "are_files_different t s r H = Inr b"
  shows "\<exists>c c'. entry_at t s = IsFile c \<and> entry_at t r = IsFile c' \<and> b = (H c \<noteq> H c')"
proof -
  from assms obtain h1 h2 where "calculate_hash t s H = Inr h1" "calculate_hash t r H = Inr h2"
    "b = (h1 \<noteq> h2)"
    by (auto simp: are_files_different_def split: sum.splits)
  with calculate_hash_Inr[of t s H h1] calculate_hash_Inr[of t r H h2] show ?thesis by auto
qed

lemma are_files_different_files:
  "entry_at t s = IsFile c \<Longrightarrow> entry_at t r = IsFile c' \<Longrightarrow>
   are_files_different t s r H = Inr (H c \<noteq> H c')"
  by (simp add: are_files_different_def calculate_hash_file)

lemma copy_file_cases:
  fixes S R sub f st H
  defines "rel \<equiv> sub @ [f]"
  obtains
    (mkdirs_failed) e where "os_makedirs (fs st) (R @ sub) = Inl e"
      "copy_file S R H (S @ sub) f st = Raised e st"
  | (same) t1 c c' where "os_makedirs (fs st) (R @ sub) = Inr t1"
      "entry_at t1 (S @ rel) = IsFile c" "entry_at t1 (R @ rel) = IsFile c'" "H c = H c'"
      "copy_file S R H (S @ sub) f st = Normal (st\<lparr>fs := t1\<rparr>)"
  | (copied) t1 c t2 where "os_makedirs (fs st) (R @ sub) = Inr t1"
      "entry_at t1 (S @ rel) = IsFile c"
      "entry_at t1 (R @ rel) = Absent \<or> (\<exists>c'. entry_at t1 (R @ rel) = IsFile c' \<and> H c \<noteq> H c')"
      "write_file t1 (R @ rel) c = Inr t2"
      "copy_file S R H (S @ sub) f st = Normal (logging_info (FileCopied rel) (st\<lparr>fs := t2\<rparr>))"
  | (failed) t1 e where "os_makedirs (fs st) (R @ sub) = Inr t1"
      "copy_file S R H (S @ sub) f st = Raised e (st\<lparr>fs := t1\<rparr>)"
proof (cases "os_makedirs (fs st) (R @ sub)")
  case (Inl e)
  then have "copy_file S R H (S @ sub) f st = Raised e st"
    by (simp add: copy_file_def Let_def butlast_append)
  with Inl mkdirs_failed show ?thesis by blast
next
  case (Inr t1)
  have bl: "butlast (R @ os_path_relpath (S @ sub @ [f]) S) = R @ sub"
    by (simp add: butlast_append)
  let ?d = "if \<not> os_path_exists t1 (R @ rel) then Inr True
            else are_files_different t1 (S @ rel) (R @ rel) H"
  have cf: "copy_file S R H (S @ sub) f st =
      (case ?d of
         Inl e \<Rightarrow> Raised e (st\<lparr>fs := t1\<rparr>)
       | Inr False \<Rightarrow> Normal (st\<lparr>fs := t1\<rparr>)
       | Inr True \<Rightarrow>
           (case shutil_copy2 t1 (S @ rel) (R @ rel) of
              Inl e \<Rightarrow> Raised e (st\<lparr>fs := t1\<rparr>)
            | Inr t2 \<Rightarrow> Normal (logging_info (FileCopied rel) (st\<lparr>fs := t2\<rparr>))))"
    using Inr bl by (simp add: copy_file_def Let_def rel_def cong: sum.case_cong bool.case_cong)
  show ?thesis
  proof (cases ?d)
    case (Inl e)
    with cf failed[OF Inr] show ?thesis by simp
  next
    case d: (Inr b)
    show ?thesis
    proof (cases b)
      case False
      with d have "are_files_different t1 (S @ rel) (R @ rel) H = Inr False"
        by (auto split: if_splits)
      from are_files_different_Inr[OF this] obtain c c' where
        "entry_at t1 (S @ rel) = IsFile c" "entry_at t1 (R @ rel) = IsFile c'" "H c = H c'"
        by auto
      moreover from cf d False have "copy_file S R H (S @ sub) f st = Normal (st\<lparr>fs := t1\<rparr>)"
        by simp
      ultimately show ?thesis using same[OF Inr] by blast
    next
      case True
      have nd: "entry_at t1 (R @ rel) \<noteq> IsDir"
        and cond: "\<And>c. entry_at t1 (S @ rel) = IsFile c \<Longrightarrow>
           entry_at t1 (R @ rel) = Absent \<or> (\<exists>c'. entry_at t1 (R @ rel) = IsFile c' \<and> H c \<noteq> H c')"
        using d True are_files_different_Inr[of t1 "S @ rel" "R @ rel" H True]
        by (auto simp: os_path_exists_entry split: if_splits)
      show ?thesis
      proof (cases "shutil_copy2 t1 (S @ rel) (R @ rel)")
        case (Inl e)
        with cf d True failed[OF Inr] show ?thesis by simp
      next
        case c2: (Inr t2)
        from shutil_copy2_Inr[OF c2 nd] obtain c where
          c: "entry_at t1 (S @ rel) = IsFile c" "write_file t1 (R @ rel) c = Inr t2" by blast
        from cf d True c2 have
          "copy_file S R H (S @ sub) f st = Normal (logging_info (FileCopied rel) (st\<lparr>fs := t2\<rparr>))"
          by simp
        with copied[OF Inr c(1) cond[OF c(1)] c(2)] show ?thesis by blast
      qed
    qed
  qed
qed

lemma remove_file_cases:
  fixes S R sub f st
  defines "rel \<equiv> sub @ [f]"
  obtains
    (kept) "entry_at (fs st) (S @ rel) \<noteq> Absent" "remove_file R S (R @ sub) f st = Normal st"
  | (removed) c where "entry_at (fs st) (S @ rel) = Absent" "entry_at (fs st) (R @ rel) = IsFile c"
      "remove_file R S (R @ sub) f st =
         Normal (logging_info (FileDeleted rel) (st\<lparr>fs := unlink (R @ rel) (fs st)\<rparr>))"
  | (failed) e where "entry_at (fs st) (S @ rel) = Absent"
      "\<forall>c. entry_at (fs st) (R @ rel) \<noteq> IsFile c" "remove_file R S (R @ sub) f st = Raised e st"
proof (cases "entry_at (fs st) (S @ rel) = Absent")
  case False
  then have "remove_file R S (R @ sub) f st = Normal st"
    by (simp add: remove_file_def Let_def os_path_exists_entry rel_def)
  with False kept show ?thesis by blast
next
  case True
  show ?thesis
  proof (cases "entry_at (fs st) (R @ rel)")
    case (IsFile c)
    from os_remove_ok[OF this] True have
      "remove_file R S (R @ sub) f st =
         Normal (logging_info (FileDeleted rel) (st\<lparr>fs := unlink (R @ rel) (fs st)\<rparr>))"
      by (simp add: remove_file_def Let_def os_path_exists_entry rel_def)
    with True IsFile removed show ?thesis by blast
  next
    case Absent
    then have "os_remove (fs st) (R @ rel) = Inl (IOError ENOENT)"
      by (simp add: os_remove_def entry_at_Absent_iff)
    with True have "remove_file R S (R @ sub) f st = Raised (IOError ENOENT) st"
      by (simp add: remove_file_def Let_def os_path_exists_entry rel_def)
    with True Absent failed show ?thesis by auto
  next
    case IsDir
    then have "os_remove (fs st) (R @ rel) = Inl (IOError EISDIR)"
      by (auto simp: os_remove_def entry_at_IsDir_iff)
    with True have "remove_file R S (R @ sub) f st = Raised (IOError EISDIR) st"
      by (simp add: remove_file_def Let_def os_path_exists_entry rel_def)
    with True IsDir failed show ?thesis by auto
  qed
qed

subsection \<open>Well-formed trees\<close>

lemma wf_entries_iff: "well_formed_entries es \<longleftrightarrow> (\<forall>e\<in>set es. well_formed (snd e))"
  by (induction es) auto

lemma set_update_subset: "set (AList.update x v es) \<subseteq> insert (x, v) (set es)"
  by (induction es) auto

lemma set_delete_subset: "set (AList.delete x es) \<subseteq> set es"
  by (induction es) auto

lemma wf_Dir_update:
  assumes "well_formed (Dir es)" and "well_formed v"
  shows "well_formed (Dir (AList.update x v es))"
proof -
  have "distinct (map fst (AList.update x v es))" using assms(1) by (simp add: distinct_update)
  moreover have "\<forall>e\<in>set (AList.update x v es). well_formed (snd e)"
    using set_update_subset[of x v es] assms by (auto simp: wf_entries_iff)
  ultimately show ?thesis by (simp add: wf_entries_iff)
qed

lemma wf_Dir_delete:
  assumes "well_formed (Dir es)"
  shows "well_formed (Dir (AList.delete x es))"
proof -
  have "distinct (map fst (AList.delete x es))" using assms by (simp add: distinct_delete)
  moreover have "\<forall>e\<in>set (AList.delete x es). well_formed (snd e)"
    using set_delete_subset[of x es] assms by (auto simp: wf_entries_iff)
  ultimately show ?thesis by (simp add: wf_entries_iff)
qed

lemma wf_child: "well_formed (Dir es) \<Longrightarrow> map_of es x = Some t \<Longrightarrow> well_formed t"
  by (auto simp: wf_entries_iff dest: map_of_SomeD)

lemma wf_put: "well_formed t \<Longrightarrow> well_formed v \<Longrightarrow> well_formed (put p v t)"
proof (induction p v t rule: put.induct)
  case (1 v t)
  then show ?case by simp
next
  case (2 x xs v c)
  then show ?case by simp
next
  case (3 x xs v es)
  show ?case
  proof (cases "xs = []")
    case True
    with 3 wf_Dir_update[of es v x] show ?thesis by simp
  next
    case False
    show ?thesis
    proof (cases "map_of es x")
      case None
      with False 3 show ?thesis by simp
    next
      case (Some t)
      from wf_child[OF "3.prems"(1) Some] have "well_formed t" .
      from "3.IH"[OF False Some this "3.prems"(2)] have "well_formed (put xs v t)" .
      from wf_Dir_update[OF "3.prems"(1) this, of x] False Some show ?thesis by simp
    qed
  qed
qed

lemma wf_unlink: "well_formed t \<Longrightarrow> well_formed (unlink p t)"
proof (induction p t rule: unlink.induct)
  case (1 t)
  then show ?case by simp
next
  case (2 x xs c)
  then show ?case by simp
next
  case (3 x xs es)
  show ?case
  proof (cases "xs = []")
    case True
    with 3 wf_Dir_delete[of es x] show ?thesis by simp
  next
    case False
    show ?thesis
    proof (cases "map_of es x")
      case None
      with False 3 show ?thesis by simp
    next
      case (Some t)
      from wf_child[OF "3.prems"(1) Some] have "well_formed t" .
      from "3.IH"[OF False Some this] have "well_formed (unlink xs t)" .
      from wf_Dir_update[OF "3.prems"(1) this, of x] False Some show ?thesis by simp
    qed
  qed
qed

lemma wf_lookup: "well_formed t \<Longrightarrow> lookup t p = Some n \<Longrightarrow> well_formed n"
proof (induction t p rule: lookup.induct)
  case (1 t)
  then show ?case by simp
next
  case (2 c x xs)
  then show ?case by simp
next
  case (3 es x xs)
  then show ?case by (auto simp: wf_entries_iff split: option.splits dest!: map_of_SomeD)
qed

lemma wf_os_mkdir: "os_mkdir t p = Inr t' \<Longrightarrow> well_formed t \<Longrightarrow> well_formed t'"
  using os_mkdir_Inr(4)[of t p t'] wf_put[of t "Dir []" p] by simp

lemma wf_os_makedirs: "os_makedirs t p = Inr t' \<Longrightarrow> well_formed t \<Longrightarrow> well_formed t'"
proof (induction t p arbitrary: t' rule: os_makedirs.induct)
  case (1 t p)
  show ?case
  proof (cases "p = []")
    case True
    with 1 show ?thesis by (simp add: os_makedirs_Nil)
  next
    case False
    from os_makedirs_cases[OF "1.prems"(1) False] obtain t1 where
      t1: "if os_path_exists t (butlast p) then t1 = t else os_makedirs t (butlast p) = Inr t1"
      and m: "os_mkdir t1 p = Inr t' \<or> (os_path_isdir t1 p \<and> t' = t1)"
      by blast
    have "well_formed t1"
    proof (cases "os_path_exists t (butlast p)")
      case True
      with t1 "1.prems" show ?thesis by simp
    next
      case F: False
      with t1 "1.IH"[OF False F _ "1.prems"(2)] show ?thesis by simp
    qed
    with m wf_os_mkdir show ?thesis by blast
  qed
qed

lemma wf_write_file: "write_file t p c = Inr t' \<Longrightarrow> well_formed t \<Longrightarrow> well_formed t'"
  using write_file_Inr(4)[of t p c t'] wf_put[of t "File c" p] by simp

subsection \<open>What one step of a loop changes\<close>


lemma prefix_snoc_mono: "prefix q (R @ sub) \<Longrightarrow> prefix q (R @ sub @ [f])"
  by (metis append.assoc prefix_order.order_trans prefixI)

lemma os_makedirs_effect:
  assumes mk: "os_makedirs (fs st) (R @ sub) = Inr t1"
    and s': "fs s' = t1" "logfile s' = logfile st" "console s' = console st"
  shows "copy_effect S R sub f st s'"
proof -
  have e: "entry_at t1 q = (if prefix q (R @ sub) \<and> entry_at (fs st) q = Absent then IsDir
                            else entry_at (fs st) q)" for q
    by (rule os_makedirs_entry[OF mk])
  have c1: "\<forall>q. q \<noteq> R @ sub @ [f] \<longrightarrow> entry_at (fs st) q \<noteq> Absent \<longrightarrow>
            entry_at (fs s') q = entry_at (fs st) q"
    by (simp add: e s')
  have np: "\<not> prefix (R @ sub @ [f]) (R @ sub)"
    using prefix_length_le[of "R @ sub @ [f]" "R @ sub"] by auto
  have c2: "entry_at (fs s') (R @ sub @ [f]) = entry_at (fs st) (R @ sub @ [f])"
    using np by (simp add: e s')
  have c3: "\<forall>q. entry_at (fs st) q = IsDir \<longrightarrow> entry_at (fs s') q = IsDir"
    by (simp add: e s')
  have c4: "\<forall>q. entry_at (fs st) q \<noteq> Absent \<longrightarrow> entry_at (fs s') q \<noteq> Absent"
    by (simp add: e s')
  have c5: "\<forall>q. entry_at (fs s') q \<noteq> entry_at (fs st) q \<longrightarrow> prefix q (R @ sub @ [f])"
    using prefix_snoc_mono[of _ R sub f] by (auto simp: e s' split: if_splits)
  have c6: "\<forall>q. \<not> prefix q (R @ sub @ [f]) \<longrightarrow> lookup (fs s') q = lookup (fs st) q"
    using os_makedirs_lookup[OF mk] prefix_snoc_mono[of _ R sub f] s'(1) by blast
  have c8: "well_formed (fs st) \<longrightarrow> well_formed (fs s')"
    using wf_os_makedirs[OF mk] s'(1) by simp
  have c9: "\<forall>q x. entry_at (fs s') q = IsFile x \<longrightarrow>
            q = R @ sub @ [f] \<or> entry_at (fs st) q = IsFile x"
    by (simp add: e s')
  show ?thesis
    unfolding copy_effect_def using c1 c2 c3 c4 c5 c6 c8 c9 s'(2,3) by blast
qed

lemma copy_effect_refl: "copy_effect S R sub f st st"
  by (simp add: copy_effect_def)

lemma copy_file_effect:
  "holds_after (copy_effect S R sub f st) (copy_file S R H (S @ sub) f st)"
proof (cases rule: copy_file_cases[of st R sub S H f])
  case (mkdirs_failed e)
  then show ?thesis by (simp add: copy_effect_refl)
next
  case (same t1 c c')
  have "copy_effect S R sub f st (st\<lparr>fs := t1\<rparr>)"
    by (rule os_makedirs_effect[OF same(1)]) simp_all
  with same(5) show ?thesis by simp
next
  case (failed t1 e)
  have "copy_effect S R sub f st (st\<lparr>fs := t1\<rparr>)"
    by (rule os_makedirs_effect[OF failed(1)]) simp_all
  with failed(2) show ?thesis by simp
next
  case (copied t1 c t2)
  let ?P = "R @ sub @ [f]"
  let ?s' = "logging_info (FileCopied (sub @ [f])) (st\<lparr>fs := t2\<rparr>)"
  have s': "fs ?s' = t2" "logfile ?s' = logfile st @ [FileCopied (sub @ [f])]"
    "console ?s' = console st @ [FileCopied (sub @ [f])]"
    by (simp_all add: logging_info_def)
  have m: "copy_effect S R sub f st (st\<lparr>fs := t1\<rparr>)"
    by (rule os_makedirs_effect[OF copied(1)]) simp_all
  have e: "entry_at t1 q = (if prefix q (R @ sub) \<and> entry_at (fs st) q = Absent then IsDir
                            else entry_at (fs st) q)" for q
    by (rule os_makedirs_entry[OF copied(1)])
  have w: "entry_at t2 q = (if q = ?P then IsFile c else entry_at t1 q)" for q
    by (rule write_file_entry[OF copied(4)])
  have np: "\<not> prefix ?P (R @ sub)"
    using prefix_length_le[of "R @ sub @ [f]" "R @ sub"] by auto
  have t1P: "entry_at t1 ?P = entry_at (fs st) ?P" using np by (simp add: e)
  have nd: "entry_at (fs st) ?P \<noteq> IsDir"
    using write_file_Inr(2)[OF copied(4)] t1P by simp
  have src: "entry_at (fs st) (S @ sub @ [f]) = IsFile c"
    using copied(2) by (simp add: e split: if_splits)
  have c1: "\<forall>q. q \<noteq> ?P \<longrightarrow> entry_at (fs st) q \<noteq> Absent \<longrightarrow>
            entry_at (fs ?s') q = entry_at (fs st) q"
    by (simp add: s' w e)
  have c2: "\<exists>c. entry_at (fs st) (S @ sub @ [f]) = IsFile c
              \<and> entry_at (fs ?s') ?P = IsFile c \<and> entry_at (fs st) ?P \<noteq> IsDir"
    using src nd by (simp add: s' w)
  have c3: "\<forall>q. entry_at (fs st) q = IsDir \<longrightarrow> entry_at (fs ?s') q = IsDir"
    using nd by (auto simp: s' w e)
  have c4: "\<forall>q. entry_at (fs st) q \<noteq> Absent \<longrightarrow> entry_at (fs ?s') q \<noteq> Absent"
    by (simp add: s' w e)
  have c5: "\<forall>q. entry_at (fs ?s') q \<noteq> entry_at (fs st) q \<longrightarrow> prefix q ?P"
    using prefix_snoc_mono[of _ R sub f] by (auto simp: s' w e split: if_splits)
  have c6: "\<forall>q. \<not> prefix q ?P \<longrightarrow> lookup (fs ?s') q = lookup (fs st) q"
  proof (intro allI impI)
    fix q assume q: "\<not> prefix q ?P"
    then have "\<not> prefix q (R @ sub)" using prefix_snoc_mono[of q R sub f] by blast
    from os_makedirs_lookup[OF copied(1) this] write_file_lookup[OF copied(4) q]
    show "lookup (fs ?s') q = lookup (fs st) q" by (simp add: s')
  qed
  have c8: "well_formed (fs st) \<longrightarrow> well_formed (fs ?s')"
    using wf_os_makedirs[OF copied(1)] wf_write_file[OF copied(4)] by (auto simp: s')
  have c9: "\<forall>q x. entry_at (fs ?s') q = IsFile x \<longrightarrow>
            q = ?P \<or> entry_at (fs st) q = IsFile x"
    by (simp add: s' w e)
  have "copy_effect S R sub f st ?s'"
    unfolding copy_effect_def using c1 c2 c3 c4 c5 c6 c8 c9 s'(2,3) by blast
  with copied(5) show ?thesis by simp
qed

lemma remove_file_effect:
  "holds_after (remove_effect R S sub f st) (remove_file R S (R @ sub) f st)"
proof (cases rule: remove_file_cases[of st S sub f R])
  case kept
  then show ?thesis by (simp add: remove_effect_def)
next
  case (failed e)
  then show ?thesis by (simp add: remove_effect_def)
next
  case (removed c)
  let ?P = "R @ sub @ [f]"
  let ?s' = "logging_info (FileDeleted (sub @ [f])) (st\<lparr>fs := unlink ?P (fs st)\<rparr>)"
  have s': "fs ?s' = unlink ?P (fs st)" "logfile ?s' = logfile st @ [FileDeleted (sub @ [f])]"
    "console ?s' = console st @ [FileDeleted (sub @ [f])]"
    by (simp_all add: logging_info_def)
  have ne: "?P \<noteq> []" by simp
  from removed(2) have l: "lookup (fs st) ?P = Some (File c)"
    by (simp add: entry_at_IsFile_iff)
  have u: "entry_at (unlink ?P (fs st)) q = (if q = ?P then Absent else entry_at (fs st) q)" for q
    by (rule entry_at_unlink_file[OF ne l])
  have c1: "\<forall>q. q \<noteq> ?P \<longrightarrow> entry_at (fs ?s') q = entry_at (fs st) q"
    by (simp add: s' u)
  have c2: "entry_at (fs ?s') ?P = Absent \<and> (\<exists>c. entry_at (fs st) ?P = IsFile c)
          \<and> entry_at (fs st) (S @ sub @ [f]) = Absent"
    using removed(1,2) by (simp add: s' u)
  have c3: "\<forall>q. \<not> prefix q ?P \<longrightarrow> lookup (fs ?s') q = lookup (fs st) q"
    using lookup_unlink_file[OF ne l] by (simp add: s')
  have c5: "well_formed (fs st) \<longrightarrow> well_formed (fs ?s')"
    using wf_unlink[of "fs st" ?P] by (simp add: s')
  have "remove_effect R S sub f st ?s'"
    unfolding remove_effect_def using c1 c2 c3 c5 s'(2,3) removed(1) by blast
  with removed(3) show ?thesis by simp
qed

subsection \<open>Invariants of the two phases\<close>

lemma copy_walk_invariant:
  assumes step: "\<And>sub f s. I s \<Longrightarrow> holds_after I (copy_file S R H (S @ sub) f s)"
    and "I st" and "prefix S dir"
  shows "holds_after I
           (os_walk n (\<lambda>root dirs files. for_each (copy_file S R H root) files) dir st)"
proof (rule os_walk_invariant[where I = I and ?dir0.0 = S])
  fix root dirs files s
  assume "prefix S root" "I s"
  then obtain sub where "root = S @ sub" by (auto simp: prefix_def)
  with step \<open>I s\<close> show "holds_after I (for_each (copy_file S R H root) files s)"
    by (intro for_each_invariant[where I = I]) auto
qed (use assms in auto)

lemma remove_walk_invariant:
  assumes step: "\<And>sub f s. I s \<Longrightarrow> holds_after I (remove_file R S (R @ sub) f s)"
    and "I st" and "prefix R dir"
  shows "holds_after I
           (os_walk n (\<lambda>root dirs files. for_each (remove_file R S root) files) dir st)"
proof (rule os_walk_invariant[where I = I and ?dir0.0 = R])
  fix root dirs files s
  assume "prefix R root" "I s"
  then obtain sub where "root = R @ sub" by (auto simp: prefix_def)
  with step \<open>I s\<close> show "holds_after I (for_each (remove_file R S root) files s)"
    by (intro for_each_invariant[where I = I]) auto
qed (use assms in auto)

lemma holds_after_mono: "holds_after P r \<Longrightarrow> (\<And>s. P s \<Longrightarrow> Q s) \<Longrightarrow> holds_after Q r"
  by (cases r) auto

lemma copy_files_invariant:
  assumes step: "\<And>sub f s. I s \<Longrightarrow> holds_after I (copy_file S R H (S @ sub) f s)"
    and report: "\<And>e s. I s \<Longrightarrow> I (logging_error (ErrorWhileCopying e) (print_line (ErrorWhileCopying e) s))"
    and "I st"
  shows "holds_after I (copy_files n S R H st)"
proof -
  from copy_walk_invariant[of I S R H st S n, OF step assms(3)]
  have "holds_after I (os_walk n (\<lambda>root dirs files. for_each (copy_file S R H root) files) S st)"
    by simp
  then show ?thesis using report
    by (auto simp: copy_files_def split: result.splits)
qed

lemma remove_files_invariant:
  assumes step: "\<And>sub f s. I s \<Longrightarrow> holds_after I (remove_file R S (R @ sub) f s)"
    and report: "\<And>e s. I s \<Longrightarrow> I (logging_error (ErrorWhileRemoving e) (print_line (ErrorWhileRemoving e) s))"
    and "I st"
  shows "holds_after I (remove_files n R S st)"
proof -
  from remove_walk_invariant[of I R S st R n, OF step assms(3)]
  have "holds_after I (os_walk n (\<lambda>root dirs files. for_each (remove_file R S root) files) R st)"
    by simp
  then show ?thesis using report
    by (auto simp: remove_files_def split: result.splits)
qed

lemma copy_files_not_Raised: "copy_files n S R H st \<noteq> Raised e s"
  by (simp add: copy_files_def split: result.splits)

lemma remove_files_not_Raised: "remove_files n R S st \<noteq> Raised e s"
  by (simp add: remove_files_def split: result.splits)

lemma synchronize_folders_Normal:
  assumes "synchronize_folders n S R H st = Normal st'"
  obtains st1 st2 where "copy_files n S R H st = Normal st1" "remove_files n R S st1 = Normal st2"
    "st' = logging_info SynchronizationCompleted st2"
proof -
  from assms obtain st1 where 1: "copy_files n S R H st = Normal st1"
    using copy_files_not_Raised[of n S R H st]
    by (cases "copy_files n S R H st") (auto simp: synchronize_folders_def)
  with assms obtain st2 where 2: "remove_files n R S st1 = Normal st2"
    using remove_files_not_Raised[of n R S st1]
    by (cases "remove_files n R S st1") (auto simp: synchronize_folders_def)
  with 1 assms have "st' = logging_info SynchronizationCompleted st2"
    by (simp add: synchronize_folders_def)
  with 1 2 that show ?thesis by blast
qed



section \<open>The order of the two phases\<close>

lemma copy_files_log_and_entries:
  "holds_after (\<lambda>s.
      (\<exists>cs. logfile s = logfile st @ cs \<and> set cs \<subseteq> range FileCopied \<union> range ErrorWhileCopying)
    \<and> (\<forall>q. entry_at (fs st) q \<noteq> Absent \<longrightarrow> entry_at (fs s) q \<noteq> Absent))
    (copy_files n S R H st)"
  (is "holds_after ?I _")
proof (rule copy_files_invariant)
  fix sub f and s :: state
  assume I: "?I s"
  then obtain cs where cs: "logfile s = logfile st @ cs"
    "set cs \<subseteq> range FileCopied \<union> range ErrorWhileCopying" by blast
  show "holds_after ?I (copy_file S R H (S @ sub) f s)"
  proof (rule holds_after_mono[OF copy_file_effect[of S R sub f s H]])
    fix s' :: state
    assume e0: "copy_effect S R sub f s s'"
    then have e: "\<forall>q. entry_at (fs s) q \<noteq> Absent \<longrightarrow> entry_at (fs s') q \<noteq> Absent"
      and lg: "logfile s' = logfile s \<or> logfile s' = logfile s @ [FileCopied (sub @ [f])]"
      unfolding copy_effect_def by blast+
    from lg have "logfile s' = logfile st @ cs \<or> logfile s' = logfile st @ (cs @ [FileCopied (sub @ [f])])"
      using cs(1) by auto
    then have "\<exists>cs. logfile s' = logfile st @ cs \<and> set cs \<subseteq> range FileCopied \<union> range ErrorWhileCopying"
    proof
      assume "logfile s' = logfile st @ cs"
      with cs(2) show ?thesis by blast
    next
      assume a: "logfile s' = logfile st @ (cs @ [FileCopied (sub @ [f])])"
      have "set (cs @ [FileCopied (sub @ [f])]) \<subseteq> range FileCopied \<union> range ErrorWhileCopying"
        using cs(2) by auto
      with a show ?thesis by blast
    qed
    with e I show "?I s'" by blast
  qed
next
  fix e and s :: state
  assume I: "?I s"
  then obtain cs where cs: "logfile s = logfile st @ cs"
    "set cs \<subseteq> range FileCopied \<union> range ErrorWhileCopying" by blast
  let ?s' = "logging_error (ErrorWhileCopying e) (print_line (ErrorWhileCopying e) s)"
  have "logfile ?s' = logfile st @ (cs @ [ErrorWhileCopying e])"
    using cs(1) by (simp add: logging_error_def print_line_def)
  moreover have "set (cs @ [ErrorWhileCopying e]) \<subseteq> range FileCopied \<union> range ErrorWhileCopying"
    using cs(2) by auto
  moreover have "fs ?s' = fs s" by (simp add: logging_error_def print_line_def)
  ultimately show "?I ?s'"
    using I by metis
next
  have "logfile st = logfile st @ []" by simp
  then show "?I st" by auto
qed

lemma remove_files_log_and_entries:
  "holds_after (\<lambda>s.
      (\<exists>ds. logfile s = logfile st @ ds \<and> set ds \<subseteq> range FileDeleted \<union> range ErrorWhileRemoving)
    \<and> (\<forall>q c. entry_at (fs s) q = IsFile c \<longrightarrow> entry_at (fs st) q = IsFile c)
    \<and> (\<forall>q. entry_at (fs s) q = IsDir \<longleftrightarrow> entry_at (fs st) q = IsDir))
    (remove_files n R S st)"
  (is "holds_after ?I _")
proof (rule remove_files_invariant)
  fix sub f and s :: state
  assume I: "?I s"
  then obtain ds where ds: "logfile s = logfile st @ ds"
    "set ds \<subseteq> range FileDeleted \<union> range ErrorWhileRemoving" by blast
  show "holds_after ?I (remove_file R S (R @ sub) f s)"
  proof (rule holds_after_mono[OF remove_file_effect[of R S sub f s]])
    fix s' :: state
    assume e0: "remove_effect R S sub f s s'"
    then have e: "\<forall>q. q \<noteq> R @ sub @ [f] \<longrightarrow> entry_at (fs s') q = entry_at (fs s) q"
      "entry_at (fs s') (R @ sub @ [f]) = entry_at (fs s) (R @ sub @ [f])
        \<or> entry_at (fs s') (R @ sub @ [f]) = Absent
          \<and> (\<exists>c. entry_at (fs s) (R @ sub @ [f]) = IsFile c)"
      and lg: "logfile s' = logfile s \<or> logfile s' = logfile s @ [FileDeleted (sub @ [f])]"
      unfolding remove_effect_def by blast+
    from lg have "logfile s' = logfile st @ ds \<or> logfile s' = logfile st @ (ds @ [FileDeleted (sub @ [f])])"
      using ds(1) by auto
    then have l: "\<exists>ds. logfile s' = logfile st @ ds \<and> set ds \<subseteq> range FileDeleted \<union> range ErrorWhileRemoving"
    proof
      assume "logfile s' = logfile st @ ds"
      with ds(2) show ?thesis by blast
    next
      assume a: "logfile s' = logfile st @ (ds @ [FileDeleted (sub @ [f])])"
      have "set (ds @ [FileDeleted (sub @ [f])]) \<subseteq> range FileDeleted \<union> range ErrorWhileRemoving"
        using ds(2) by auto
      with a show ?thesis by blast
    qed
    have en: "entry_at (fs s') q = entry_at (fs s) q \<or>
        (entry_at (fs s') q = Absent \<and> (\<exists>c. entry_at (fs s) q = IsFile c))" for q
      using e by (cases "q = R @ sub @ [f]") auto
    have "\<forall>q c. entry_at (fs s') q = IsFile c \<longrightarrow> entry_at (fs st) q = IsFile c"
      using en I by (metis entry.distinct(1))
    moreover have "\<forall>q. entry_at (fs s') q = IsDir \<longleftrightarrow> entry_at (fs st) q = IsDir"
      using en I by (metis entry.distinct(3) entry.distinct(5))
    ultimately show "?I s'" using l by blast
  qed
next
  fix e and s :: state
  assume I: "?I s"
  then obtain ds where ds: "logfile s = logfile st @ ds"
    "set ds \<subseteq> range FileDeleted \<union> range ErrorWhileRemoving" by blast
  let ?s' = "logging_error (ErrorWhileRemoving e) (print_line (ErrorWhileRemoving e) s)"
  have "logfile ?s' = logfile st @ (ds @ [ErrorWhileRemoving e])"
    using ds(1) by (simp add: logging_error_def print_line_def)
  moreover have "set (ds @ [ErrorWhileRemoving e]) \<subseteq> range FileDeleted \<union> range ErrorWhileRemoving"
    using ds(2) by auto
  moreover have "fs ?s' = fs s" by (simp add: logging_error_def print_line_def)
  ultimately show "?I ?s'"
    using I by metis
next
  have "logfile st = logfile st @ []" by simp
  then show "?I st" by auto
qed

text \<open>
  C7. A cycle that returns has run \<open>copy_files\<close> to its end and then \<open>remove_files\<close> on the
  state the copy phase left: the lines it logged are the lines of the copy phase, then
  those of the delete phase, then the line of completion. The copy phase removes no entry
  of the tree, and the delete phase writes no file and makes or removes no directory, so
  every copy of the cycle precedes every deletion.
\<close>

theorem copy_phase_before_delete_phase:
  assumes "synchronize_folders n S R md5 st = Normal st'"
  shows "\<exists>st1 st2 cs ds.
      copy_files n S R md5 st = Normal st1 \<and> remove_files n R S st1 = Normal st2
    \<and> st' = logging_info SynchronizationCompleted st2
    \<and> logfile st' = logfile st @ cs @ ds @ [SynchronizationCompleted]
    \<and> set cs \<subseteq> range FileCopied \<union> range ErrorWhileCopying
    \<and> set ds \<subseteq> range FileDeleted \<union> range ErrorWhileRemoving
    \<and> logfile st1 = logfile st @ cs
    \<and> (\<forall>q. entry_at (fs st) q \<noteq> Absent \<longrightarrow> entry_at (fs st1) q \<noteq> Absent)
    \<and> (\<forall>q c. entry_at (fs st2) q = IsFile c \<longrightarrow> entry_at (fs st1) q = IsFile c)
    \<and> (\<forall>q. entry_at (fs st2) q = IsDir \<longleftrightarrow> entry_at (fs st1) q = IsDir)"
proof -
  from synchronize_folders_Normal[OF assms] obtain st1 st2 where
    c: "copy_files n S R md5 st = Normal st1" and r: "remove_files n R S st1 = Normal st2"
    and e: "st' = logging_info SynchronizationCompleted st2" by blast
  from copy_files_log_and_entries[of st n S R md5] c obtain cs where
    cs: "logfile st1 = logfile st @ cs" "set cs \<subseteq> range FileCopied \<union> range ErrorWhileCopying"
    and ce: "\<forall>q. entry_at (fs st) q \<noteq> Absent \<longrightarrow> entry_at (fs st1) q \<noteq> Absent"
    by auto
  from remove_files_log_and_entries[of st1 n R S] r obtain ds where
    ds: "logfile st2 = logfile st1 @ ds" "set ds \<subseteq> range FileDeleted \<union> range ErrorWhileRemoving"
    and re: "\<forall>q c. entry_at (fs st2) q = IsFile c \<longrightarrow> entry_at (fs st1) q = IsFile c"
      "\<forall>q. entry_at (fs st2) q = IsDir \<longleftrightarrow> entry_at (fs st1) q = IsDir"
    by auto
  have "logfile st' = logfile st @ cs @ ds @ [SynchronizationCompleted]"
    using e cs(1) ds(1) by (simp add: logging_info_def)
  with c r e cs ds ce re show ?thesis by blast
qed

theorem copy_phase_before_delete_phase_witness:
  "synchronize_folders 2 [''s''] [''r''] id (fresh changed_and_stale)
     = Normal \<lparr>fs = Dir [(''s'', Dir [(''a.txt'', File ''hello'')]),
                         (''r'', Dir [(''a.txt'', File ''hello'')])],
               logfile = [FileCopied [''a.txt''], FileDeleted [''old.txt''],
                          SynchronizationCompleted],
               console = [FileCopied [''a.txt''], FileDeleted [''old.txt''],
                          SynchronizationCompleted]\<rparr>
   \<and> (\<exists>st1 st2 cs ds.
        copy_files 2 [''s''] [''r''] id (fresh changed_and_stale) = Normal st1
      \<and> remove_files 2 [''r''] [''s''] st1 = Normal st2
      \<and> [FileCopied [''a.txt''], FileDeleted [''old.txt''], SynchronizationCompleted]
          = cs @ ds @ [SynchronizationCompleted]
      \<and> set cs \<subseteq> range FileCopied \<union> range ErrorWhileCopying
      \<and> set ds \<subseteq> range FileDeleted \<union> range ErrorWhileRemoving)"
proof -
  let ?st' = "\<lparr>fs = Dir [(''s'', Dir [(''a.txt'', File ''hello'')]),
                         (''r'', Dir [(''a.txt'', File ''hello'')])],
               logfile = [FileCopied [''a.txt''], FileDeleted [''old.txt''],
                          SynchronizationCompleted],
               console = [FileCopied [''a.txt''], FileDeleted [''old.txt''],
                          SynchronizationCompleted]\<rparr>"
  have run: "synchronize_folders 2 [''s''] [''r''] id (fresh changed_and_stale) = Normal ?st'"
    by code_simp
  from copy_phase_before_delete_phase[OF run] obtain st1 st2 cs ds where
    "copy_files 2 [''s''] [''r''] id (fresh changed_and_stale) = Normal st1"
    "remove_files 2 [''r''] [''s''] st1 = Normal st2"
    "logfile ?st' = logfile (fresh changed_and_stale) @ cs @ ds @ [SynchronizationCompleted]"
    "set cs \<subseteq> range FileCopied \<union> range ErrorWhileCopying"
    "set ds \<subseteq> range FileDeleted \<union> range ErrorWhileRemoving"
    by blast
  then show ?thesis using run by (auto simp: fresh_def)
qed

section \<open>A replica file where the source has a directory\<close>

subsection \<open>Invariants of the loop of main\<close>





section \<open>What a run leaves alone\<close>


lemma holds_after_True: "holds_after (\<lambda>s. True) r"
  by (cases r) auto

lemma not_prefix_of_extension:
  "\<not> prefix S R \<Longrightarrow> \<not> prefix R S \<Longrightarrow> \<not> prefix S (R @ x)"
  using prefix_append[of S R x] by (auto simp: prefix_def)






section \<open>Startup and exceptions\<close>




subsection \<open>Exceptions\<close>





section \<open>The walk as a list of files\<close>

subsection \<open>The files of a tree\<close>

lemma height_entry: "(d, c) \<in> set es \<Longrightarrow> height c \<le> height_entries es"
  by (induction es) auto

lemma well_formed_entry: "well_formed (Dir es) \<Longrightarrow> (d, c) \<in> set es \<Longrightarrow> well_formed c"
  by (auto simp: wf_entries_iff)

lemma map_of_entry: "well_formed (Dir es) \<Longrightarrow> (d, c) \<in> set es \<Longrightarrow> map_of es d = Some c"
  by simp

lemma Nil_not_in_walk:
  "[] \<notin> set (walk_files N)" and "[] \<notin> set (walk_subdirs es)"
  by (induction N and es rule: walk_files_walk_subdirs.induct) auto

lemma walk_subdirs_iff:
  "p \<in> set (walk_subdirs es) \<longleftrightarrow>
     (\<exists>d c r. p = d # r \<and> (d, c) \<in> set es \<and> r \<in> set (walk_files c))"
proof (induction es)
  case Nil
  then show ?case by simp
next
  case (Cons e es)
  obtain d c where e: "e = (d, c)" by (cases e)
  show ?case unfolding e using Cons.IH by auto
qed

lemma walk_files_complete:
  "lookup N rel = Some (File c) \<Longrightarrow> rel \<noteq> [] \<Longrightarrow> rel \<in> set (walk_files N)"
proof (induction N rel rule: lookup.induct)
  case (1 t)
  then show ?case by simp
next
  case (2 c' x xs)
  then show ?case by simp
next
  case (3 es x xs)
  from "3.prems"(1) obtain t where t: "map_of es x = Some t" "lookup t xs = Some (File c)"
    by (auto split: option.splits)
  then have mem: "(x, t) \<in> set es" by (auto dest: map_of_SomeD)
  show ?case
  proof (cases "xs = []")
    case True
    with t have "t = File c" by simp
    with mem have "(x, File c) \<in> set (filter (\<lambda>e. \<not> is_dir_node (snd e)) es)" by simp
    then have "[x] \<in> (\<lambda>e. [fst e]) ` set (filter (\<lambda>e. \<not> is_dir_node (snd e)) es)"
      by force
    with True show ?thesis by simp
  next
    case False
    from "3.IH"[OF t(1) t(2) False] mem show ?thesis
      by (auto simp: walk_subdirs_iff)
  qed
qed

lemma walk_files_sound:
  "well_formed N \<Longrightarrow> rel \<in> set (walk_files N) \<Longrightarrow> \<exists>c. lookup N rel = Some (File c)"
proof (induction N rel rule: lookup.induct)
  case (1 t)
  then show ?case using Nil_not_in_walk(1) by simp
next
  case (2 c' x xs)
  then show ?case by simp
next
  case (3 es x xs)
  from "3.prems"(2) have
    "(\<exists>e. e \<in> set es \<and> \<not> is_dir_node (snd e) \<and> x = fst e \<and> xs = [])
     \<or> (\<exists>c. (x, c) \<in> set es \<and> xs \<in> set (walk_files c))"
    by (auto simp: walk_subdirs_iff)
  then show ?case
  proof
    assume "\<exists>e. e \<in> set es \<and> \<not> is_dir_node (snd e) \<and> x = fst e \<and> xs = []"
    then obtain e where e: "e \<in> set es" "\<not> is_dir_node (snd e)" "x = fst e" "xs = []"
      by blast
    then obtain c where "snd e = File c" by (cases "snd e") auto
    with e have "(x, File c) \<in> set es" by (metis prod.collapse)
    with "3.prems"(1) have "map_of es x = Some (File c)" by simp
    with e(4) show ?thesis by simp
  next
    assume "\<exists>c. (x, c) \<in> set es \<and> xs \<in> set (walk_files c)"
    then obtain c where sub: "(x, c) \<in> set es" "xs \<in> set (walk_files c)" by blast
    with "3.prems"(1) have m: "map_of es x = Some c" by simp
    from well_formed_entry[OF "3.prems"(1) sub(1)] have "well_formed c" .
    from "3.IH"[OF m this sub(2)] m show ?thesis by simp
  qed
qed

lemma walk_files_iff:
  "well_formed N \<Longrightarrow> rel \<in> set (walk_files N) \<longleftrightarrow> rel \<noteq> [] \<and> (\<exists>c. lookup N rel = Some (File c))"
  using walk_files_sound[of N rel] walk_files_complete[of N rel] Nil_not_in_walk(1)[of N]
  by metis

lemma walk_files_distinct:
  "well_formed N \<Longrightarrow> distinct (walk_files N)"
  and "distinct (map fst es) \<Longrightarrow> well_formed_entries es \<Longrightarrow> distinct (walk_subdirs es)"
proof (induction N and es rule: walk_files_walk_subdirs.induct)
  case (1 c)
  then show ?case by simp
next
  case (2 es)
  have inj: "inj_on (\<lambda>e. [fst e]) (set (filter (\<lambda>e. \<not> is_dir_node (snd e)) es))"
    using "2.prems" by (auto simp: inj_on_def dest: eq_key_imp_eq_value)
  have d1: "distinct (map (\<lambda>e. [fst e]) (filter (\<lambda>e. \<not> is_dir_node (snd e)) es))"
    using "2.prems" inj by (simp add: distinct_map distinct_map_filter distinct_filter)
  have d2: "distinct (walk_subdirs es)" using 2 by simp
  have disj: "set (map (\<lambda>e. [fst e]) (filter (\<lambda>e. \<not> is_dir_node (snd e)) es)) \<inter> set (walk_subdirs es) = {}"
  proof (rule ccontr)
    assume "\<not> ?thesis"
    then obtain p where p: "p \<in> set (map (\<lambda>e. [fst e]) (filter (\<lambda>e. \<not> is_dir_node (snd e)) es))"
      "p \<in> set (walk_subdirs es)" by blast
    from p(1) obtain e where "p = [fst e]" by auto
    moreover from p(2) obtain d c r where "p = d # r" "r \<in> set (walk_files c)"
      by (auto simp: walk_subdirs_iff)
    ultimately have "[] \<in> set (walk_files c)" by simp
    with Nil_not_in_walk(1) show False by blast
  qed
  from d1 d2 disj show ?case by simp
next
  case 3
  then show ?case by simp
next
  case (4 e es)
  have d1: "distinct (map ((#) (fst e)) (walk_files (snd e)))"
    using 4 by (simp add: distinct_map)
  have d2: "distinct (walk_subdirs es)" using 4 by simp
  have "set (map ((#) (fst e)) (walk_files (snd e))) \<inter> set (walk_subdirs es) = {}"
    using "4.prems"(1) by (auto simp: walk_subdirs_iff) (metis fst_conv image_eqI)
  with d1 d2 show ?case by simp
qed

subsection \<open>A walk of a tree the loop does not disturb\<close>

lemma for_each_frame:
  fixes step :: "path \<Rightarrow> name \<Rightarrow> state \<Rightarrow> state result"
  assumes frame: "\<And>sub f s. \<not> prefix q (D @ sub @ [f]) \<Longrightarrow>
      holds_after (\<lambda>s'. lookup (fs s') q = lookup (fs s) q) (step (D @ sub) f s)"
    and rels: "\<forall>rel\<in>set rels. rel \<noteq> [] \<and> \<not> prefix q (D @ rel)"
  shows "holds_after (\<lambda>s'. lookup (fs s') q = lookup (fs st) q)
           (for_each (\<lambda>rel. step (D @ butlast rel) (last rel)) rels st)"
proof (rule for_each_invariant[where I = "\<lambda>s'. lookup (fs s') q = lookup (fs st) q"])
  fix rel and s :: state
  assume r: "rel \<in> set rels" and I: "lookup (fs s) q = lookup (fs st) q"
  with rels have ne: "rel \<noteq> []" and np: "\<not> prefix q (D @ rel)" by auto
  from ne have "butlast rel @ [last rel] = rel" by simp
  with np have "\<not> prefix q (D @ butlast rel @ [last rel])" by simp
  from frame[OF this, of s] show
    "holds_after (\<lambda>s'. lookup (fs s') q = lookup (fs st) q) (step (D @ butlast rel) (last rel) s)"
    by (rule holds_after_mono) (simp add: I)
qed simp

lemma prefix_sibling: "prefix (D @ sub @ [d']) (D @ sub @ d # r) \<longleftrightarrow> d' = d"
  by simp

lemma os_walk_eager:
  fixes step :: "path \<Rightarrow> name \<Rightarrow> state \<Rightarrow> state result"
  assumes frame: "\<And>q sub f s. prefix D q \<Longrightarrow> \<not> prefix q (D @ sub @ [f]) \<Longrightarrow>
      holds_after (\<lambda>s'. lookup (fs s') q = lookup (fs s) q) (step (D @ sub) f s)"
  shows "lookup (fs st) (D @ sub) = Some N \<Longrightarrow> well_formed N \<Longrightarrow> height N < n \<Longrightarrow>
     os_walk n (\<lambda>root dirs files. for_each (step root) files) (D @ sub) st =
       for_each (\<lambda>rel. step (D @ butlast rel) (last rel)) (map ((@) sub) (walk_files N)) st"
proof (induction n arbitrary: sub st N)
  case 0
  then show ?case by simp
next
  case (Suc n)
  let ?body = "\<lambda>root dirs files. for_each (step root) files"
  let ?G = "\<lambda>rel. step (D @ butlast rel) (last rel)"
  show ?case
  proof (cases N)
    case (File c)
    with Suc.prems(1) show ?thesis by (simp add: scandir_def)
  next
    case (Dir es)
    let ?W = "\<lambda>d s. os_walk n ?body (D @ sub @ [d]) s"
    let ?dl = "filter (\<lambda>e. is_dir_node (snd e)) es"
    let ?fl = "filter (\<lambda>e. \<not> is_dir_node (snd e)) es"
    have wfN: "well_formed (Dir es)" using Suc.prems(2) Dir by simp
    have hN: "height_entries es < n" using Suc.prems(3) Dir by simp
    have sc: "scandir (fs st) (D @ sub) = Some (map fst ?dl, map fst ?fl)"
      using Suc.prems(1) Dir by (simp add: scandir_def)
    have inner: "for_each ?W (map fst (filter (\<lambda>e. is_dir_node (snd e)) es')) s
        = for_each ?G (map ((@) sub) (walk_subdirs es')) s"
      if "distinct (map fst es')"
        and "\<forall>e\<in>set es'. is_dir_node (snd e) \<longrightarrow>
               lookup (fs s) (D @ sub @ [fst e]) = Some (snd e) \<and> well_formed (snd e) \<and> height (snd e) < n"
      for es' s
      using that
    proof (induction es' arbitrary: s)
      case Nil
      then show ?case by simp
    next
      case (Cons e es'')
      obtain d c where e: "e = (d, c)" by (cases e)
      show ?case
      proof (cases c)
        case (File x)
        have "for_each ?W (map fst (filter (\<lambda>e. is_dir_node (snd e)) es'')) s
            = for_each ?G (map ((@) sub) (walk_subdirs es'')) s"
          by (rule Cons.IH) (use Cons.prems in auto)
        with e File show ?thesis by simp
      next
        case (Dir es2)
        from Cons.prems(2) e Dir have c: "lookup (fs s) (D @ sub @ [d]) = Some c"
          "well_formed c" "height c < n" by auto
        from Suc.IH[where sub = "sub @ [d]" and st = s and N = c] c have w: "?W d s =
            for_each ?G (map (\<lambda>r. sub @ d # r) (walk_files c)) s" by simp
        have m: "map ((@) sub) (map ((#) d) (walk_files c)) = map (\<lambda>r. sub @ d # r) (walk_files c)"
          by simp
        have lhs: "for_each ?W (map fst (filter (\<lambda>e. is_dir_node (snd e)) (e # es''))) s =
            (case ?W d s of
               Normal s1 \<Rightarrow> for_each ?W (map fst (filter (\<lambda>e. is_dir_node (snd e)) es'')) s1
             | Raised x s1 \<Rightarrow> Raised x s1 | OutOfFuel \<Rightarrow> OutOfFuel)"
          using e Dir by simp
        have rhs: "for_each ?G (map ((@) sub) (walk_subdirs (e # es''))) s =
            (case ?W d s of
               Normal s1 \<Rightarrow> for_each ?G (map ((@) sub) (walk_subdirs es'')) s1
             | Raised x s1 \<Rightarrow> Raised x s1 | OutOfFuel \<Rightarrow> OutOfFuel)"
          using e by (simp add: for_each_append w m del: map_map)
        show ?thesis
        proof (cases "?W d s")
          case (Normal s1)
          have keep: "lookup (fs s1) (D @ sub @ [d']) = lookup (fs s) (D @ sub @ [d'])"
            if "d' \<noteq> d" for d'
          proof -
            have "holds_after (\<lambda>s'. lookup (fs s') (D @ sub @ [d']) = lookup (fs s) (D @ sub @ [d']))
                (for_each ?G (map (\<lambda>r. sub @ d # r) (walk_files c)) s)"
            proof (rule for_each_frame)
              fix sub' f and s' :: state
              assume "\<not> prefix (D @ sub @ [d']) (D @ sub' @ [f])"
              then show "holds_after (\<lambda>s''. lookup (fs s'') (D @ sub @ [d']) = lookup (fs s') (D @ sub @ [d']))
                  (step (D @ sub') f s')"
                by (intro frame) auto
            next
              show "\<forall>rel\<in>set (map (\<lambda>r. sub @ d # r) (walk_files c)).
                  rel \<noteq> [] \<and> \<not> prefix (D @ sub @ [d']) (D @ rel)"
                using that by auto
            qed
            moreover have "for_each ?G (map (\<lambda>r. sub @ d # r) (walk_files c)) s = Normal s1"
              using w Normal by simp
            ultimately show ?thesis by simp
          qed
          have "for_each ?W (map fst (filter (\<lambda>e. is_dir_node (snd e)) es'')) s1
            = for_each ?G (map ((@) sub) (walk_subdirs es'')) s1"
          proof (rule Cons.IH)
            show "distinct (map fst es'')" using Cons.prems(1) by simp
            show "\<forall>e\<in>set es''. is_dir_node (snd e) \<longrightarrow>
               lookup (fs s1) (D @ sub @ [fst e]) = Some (snd e) \<and> well_formed (snd e) \<and> height (snd e) < n"
            proof (intro ballI impI)
              fix e' assume e': "e' \<in> set es''" "is_dir_node (snd e')"
              with Cons.prems(1) e have "fst e' \<noteq> d" by auto
              from keep[OF this] Cons.prems(2) e' show
                "lookup (fs s1) (D @ sub @ [fst e']) = Some (snd e') \<and> well_formed (snd e') \<and> height (snd e') < n"
                by simp
            qed
          qed
          with lhs rhs Normal show ?thesis by simp
        next
          case (Raised x s1)
          with lhs rhs show ?thesis by simp
        next
          case OutOfFuel
          with lhs rhs show ?thesis by simp
        qed
      qed
    qed
    have files: "for_each ?G (map ((@) sub) (map (\<lambda>e. [fst e]) ?fl)) s
        = for_each (step (D @ sub)) (map fst ?fl) s" for s
      by (simp add: for_each_map comp_def)
    have lhs: "os_walk (Suc n) ?body (D @ sub) st =
        (case for_each (step (D @ sub)) (map fst ?fl) st of
           Normal st' \<Rightarrow> for_each ?W (map fst ?dl) st'
         | Raised x st' \<Rightarrow> Raised x st' | OutOfFuel \<Rightarrow> OutOfFuel)"
      using sc by (simp cong: result.case_cong)
    have rhs: "for_each ?G (map ((@) sub) (walk_files N)) st =
        (case for_each (step (D @ sub)) (map fst ?fl) st of
           Normal st' \<Rightarrow> for_each ?G (map ((@) sub) (walk_subdirs es)) st'
         | Raised x st' \<Rightarrow> Raised x st' | OutOfFuel \<Rightarrow> OutOfFuel)"
      using Dir files[of st] by (simp add: for_each_append del: map_map)
    show ?thesis
    proof (cases "for_each (step (D @ sub)) (map fst ?fl) st")
      case (Normal st')
      have keep: "lookup (fs st') (D @ sub @ [d]) = lookup (fs st) (D @ sub @ [d])"
        if "d \<notin> fst ` set ?fl" for d
      proof -
        have "holds_after (\<lambda>s'. lookup (fs s') (D @ sub @ [d]) = lookup (fs st) (D @ sub @ [d]))
            (for_each ?G (map ((@) sub) (map (\<lambda>e. [fst e]) ?fl)) st)"
        proof (rule for_each_frame)
          fix sub' f and s' :: state
          assume "\<not> prefix (D @ sub @ [d]) (D @ sub' @ [f])"
          then show "holds_after (\<lambda>s''. lookup (fs s'') (D @ sub @ [d]) = lookup (fs s') (D @ sub @ [d]))
              (step (D @ sub') f s')"
            by (intro frame) auto
        next
          show "\<forall>rel\<in>set (map ((@) sub) (map (\<lambda>e. [fst e]) ?fl)).
              rel \<noteq> [] \<and> \<not> prefix (D @ sub @ [d]) (D @ rel)"
            using that by (auto simp: image_iff)
        qed
        moreover have "for_each ?G (map ((@) sub) (map (\<lambda>e. [fst e]) ?fl)) st = Normal st'"
          using files[of st] Normal by simp
        ultimately show ?thesis by simp
      qed
      have "for_each ?W (map fst ?dl) st' = for_each ?G (map ((@) sub) (walk_subdirs es)) st'"
      proof (rule inner)
        show "distinct (map fst es)" using wfN by simp
        show "\<forall>e\<in>set es. is_dir_node (snd e) \<longrightarrow>
               lookup (fs st') (D @ sub @ [fst e]) = Some (snd e) \<and> well_formed (snd e) \<and> height (snd e) < n"
        proof (intro ballI impI)
          fix e assume e: "e \<in> set es" "is_dir_node (snd e)"
          obtain d c where dc: "e = (d, c)" by (cases e)
          have nf: "d \<notin> fst ` set ?fl"
          proof
            assume "d \<in> fst ` set ?fl"
            then obtain c' where "(d, c') \<in> set es" "\<not> is_dir_node c'" by auto
            with wfN e dc have "c' = c" by (auto dest: eq_key_imp_eq_value)
            with e dc \<open>\<not> is_dir_node c'\<close> show False by simp
          qed
          have "map_of es d = Some c" using wfN e dc by simp
          then have "lookup (fs st) (D @ sub @ [d]) = Some c"
            using Suc.prems(1) Dir lookup_append[of "fs st" "D @ sub" "[d]"] by simp
          with keep[OF nf] have 1: "lookup (fs st') (D @ sub @ [d]) = Some c" by simp
          have 2: "well_formed c" using well_formed_entry[OF wfN] e dc by simp
          have 3: "height c < n" using height_entry[of d c es] e dc hN by simp
          from 1 2 3 dc show
            "lookup (fs st') (D @ sub @ [fst e]) = Some (snd e) \<and> well_formed (snd e) \<and> height (snd e) < n"
            by simp
        qed
      qed
      with lhs rhs Normal show ?thesis by simp
    next
      case (Raised x s1)
      with lhs rhs show ?thesis by simp
    next
      case OutOfFuel
      with lhs rhs show ?thesis by simp
    qed
  qed
qed

subsection \<open>The two phases on separate folders\<close>

lemma separate_paths: "separate S R \<Longrightarrow> \<not> prefix (S @ x) (R @ y)"
  unfolding separate_def
  by (metis not_prefix_of_extension prefix_order.order_trans prefixI)

lemma separate_paths': "separate S R \<Longrightarrow> \<not> prefix (R @ x) (S @ y)"
  unfolding separate_def
  by (metis not_prefix_of_extension prefix_order.order_trans prefixI)

lemma separate_neq: "separate S R \<Longrightarrow> S @ x \<noteq> R @ y"
  using separate_paths[of S R x y] by auto

lemma copy_walk_eager:
  assumes sep: "separate S R" and N: "lookup (fs st) S = Some N" "well_formed N" "height N < n"
  shows "os_walk n (\<lambda>root dirs files. for_each (copy_file S R H root) files) S st
         = for_each (copy_rel S R H) (walk_files N) st"
proof -
  have "os_walk n (\<lambda>root dirs files. for_each (copy_file S R H root) files) (S @ []) st
      = for_each (\<lambda>rel. copy_file S R H (S @ butlast rel) (last rel)) (map ((@) []) (walk_files N)) st"
  proof (rule os_walk_eager[where step = "copy_file S R H"])
    fix q sub f and s :: state
    assume "prefix S q"
    then obtain y where "q = S @ y" by (auto simp: prefix_def)
    with separate_paths[OF sep, of y "sub @ [f]"] have np: "\<not> prefix q (R @ sub @ [f])" by simp
    show "holds_after (\<lambda>s'. lookup (fs s') q = lookup (fs s) q) (copy_file S R H (S @ sub) f s)"
      by (rule holds_after_mono[OF copy_file_effect[of S R sub f s H]])
         (use np in \<open>simp add: copy_effect_def\<close>)
  qed (use N in simp_all)
  moreover have "map ((@) []) (walk_files N) = walk_files N" by (rule map_idI) simp
  ultimately show ?thesis by (simp add: copy_rel_def[abs_def])
qed

lemma remove_walk_eager:
  assumes N: "lookup (fs st) R = Some N" "well_formed N" "height N < n"
  shows "os_walk n (\<lambda>root dirs files. for_each (remove_file R S root) files) R st
         = for_each (remove_rel R S) (walk_files N) st"
proof -
  have "os_walk n (\<lambda>root dirs files. for_each (remove_file R S root) files) (R @ []) st
      = for_each (\<lambda>rel. remove_file R S (R @ butlast rel) (last rel)) (map ((@) []) (walk_files N)) st"
  proof (rule os_walk_eager[where step = "remove_file R S"])
    fix q sub f and s :: state
    assume np: "\<not> prefix q (R @ sub @ [f])"
    show "holds_after (\<lambda>s'. lookup (fs s') q = lookup (fs s) q) (remove_file R S (R @ sub) f s)"
      by (rule holds_after_mono[OF remove_file_effect[of R S sub f s]])
         (use np in \<open>simp add: remove_effect_def\<close>)
  qed (use N in simp_all)
  moreover have "map ((@) []) (walk_files N) = walk_files N" by (rule map_idI) simp
  ultimately show ?thesis by (simp add: remove_rel_def[abs_def])
qed

lemma remove_rel_step:
  assumes sep: "separate S R" and r: "r \<noteq> []" "entry_at (fs st) (R @ r) = IsFile c"
  obtains s where "remove_rel R S r st = Normal s"
    "\<And>q. entry_at (fs s) q =
        (if q = R @ r \<and> entry_at (fs st) (S @ r) = Absent then Absent else entry_at (fs st) q)"
    "logfile s = logfile st @ (if entry_at (fs st) (S @ r) = Absent then [FileDeleted r] else [])"
    "well_formed (fs st) \<Longrightarrow> well_formed (fs s)"
proof -
  have br: "butlast r @ [last r] = r" using r(1) by simp
  show ?thesis
  proof (cases rule: remove_file_cases[of st S "butlast r" "last r" R])
    case kept
    then have "remove_rel R S r st = Normal st" "entry_at (fs st) (S @ r) \<noteq> Absent"
      by (simp_all add: remove_rel_def br)
    then show ?thesis using that[of st] by simp
  next
    case (removed c')
    let ?s = "logging_info (FileDeleted r) (st\<lparr>fs := unlink (R @ r) (fs st)\<rparr>)"
    from removed have a: "remove_rel R S r st = Normal ?s" "entry_at (fs st) (S @ r) = Absent"
      by (simp_all add: remove_rel_def br)
    have ne: "R @ r \<noteq> []" using r(1) by simp
    from r(2) have l: "lookup (fs st) (R @ r) = Some (File c)" by (simp add: entry_at_IsFile_iff)
    have "entry_at (fs ?s) q = (if q = R @ r then Absent else entry_at (fs st) q)" for q
      using entry_at_unlink_file[OF ne l, of q] by (simp add: logging_info_def)
    moreover have "logfile ?s = logfile st @ [FileDeleted r]" by (simp add: logging_info_def)
    moreover have "well_formed (fs st) \<Longrightarrow> well_formed (fs ?s)"
      using wf_unlink[of "fs st" "R @ r"] by (simp add: logging_info_def)
    ultimately show ?thesis using that[of ?s] a by simp
  next
    case (failed e)
    with r(2) br show ?thesis by simp
  qed
qed

lemma remove_loop_exact:
  assumes sep: "separate S R"
  shows "distinct rels \<Longrightarrow>
    \<forall>rel\<in>set rels. rel \<noteq> [] \<and> (\<exists>c. entry_at (fs st) (R @ rel) = IsFile c) \<Longrightarrow>
    \<exists>st'. for_each (remove_rel R S) rels st = Normal st'
      \<and> (\<forall>q. entry_at (fs st') q =
            (if \<exists>rel\<in>set rels. q = R @ rel \<and> entry_at (fs st) (S @ rel) = Absent then Absent
             else entry_at (fs st) q))
      \<and> logfile st' = logfile st @ map FileDeleted (filter (\<lambda>rel. entry_at (fs st) (S @ rel) = Absent) rels)
      \<and> (well_formed (fs st) \<longrightarrow> well_formed (fs st'))"
proof (induction rels arbitrary: st)
  case Nil
  then show ?case by simp
next
  case (Cons r rs)
  from Cons.prems(2) obtain c where r: "r \<noteq> []" "entry_at (fs st) (R @ r) = IsFile c" by auto
  from remove_rel_step[OF sep r] obtain s where s: "remove_rel R S r st = Normal s"
    "\<And>q. entry_at (fs s) q =
        (if q = R @ r \<and> entry_at (fs st) (S @ r) = Absent then Absent else entry_at (fs st) q)"
    "logfile s = logfile st @ (if entry_at (fs st) (S @ r) = Absent then [FileDeleted r] else [])"
    "well_formed (fs st) \<Longrightarrow> well_formed (fs s)"
    by blast
  have src: "entry_at (fs s) (S @ x) = entry_at (fs st) (S @ x)" for x
    using s(2)[of "S @ x"] separate_neq[OF sep, of x r] by simp
  have rest: "\<forall>rel\<in>set rs. rel \<noteq> [] \<and> (\<exists>c. entry_at (fs s) (R @ rel) = IsFile c)"
  proof
    fix rel assume m: "rel \<in> set rs"
    with Cons.prems(1) have "rel \<noteq> r" by auto
    then have "entry_at (fs s) (R @ rel) = entry_at (fs st) (R @ rel)" using s(2)[of "R @ rel"] by simp
    with Cons.prems(2) m show "rel \<noteq> [] \<and> (\<exists>c. entry_at (fs s) (R @ rel) = IsFile c)" by simp
  qed
  from Cons.prems(1) have "distinct rs" by simp
  from Cons.IH[OF this rest] obtain st' where st': "for_each (remove_rel R S) rs s = Normal st'"
    "\<forall>q. entry_at (fs st') q =
            (if \<exists>rel\<in>set rs. q = R @ rel \<and> entry_at (fs s) (S @ rel) = Absent then Absent
             else entry_at (fs s) q)"
    "logfile st' = logfile s @ map FileDeleted (filter (\<lambda>rel. entry_at (fs s) (S @ rel) = Absent) rs)"
    "well_formed (fs s) \<longrightarrow> well_formed (fs st')"
    by blast
  have 1: "for_each (remove_rel R S) (r # rs) st = Normal st'" using s(1) st'(1) by simp
  have 2: "entry_at (fs st') q =
            (if \<exists>rel\<in>set (r # rs). q = R @ rel \<and> entry_at (fs st) (S @ rel) = Absent then Absent
             else entry_at (fs st) q)" for q
    using st'(2) s(2)[of q] by (auto simp: src)
  have 3: "logfile st' = logfile st @ map FileDeleted (filter (\<lambda>rel. entry_at (fs st) (S @ rel) = Absent) (r # rs))"
    using st'(3) s(3) by (simp add: src)
  have 4: "well_formed (fs st) \<longrightarrow> well_formed (fs st')" using s(4) st'(4) by blast
  from 1 2 3 4 show ?case by blast
qed

lemma copy_keeps_refl: "copy_keeps S R st st"
proof -
  have "logfile st = logfile st @ []" by simp
  then have "\<exists>cs. logfile st = logfile st @ cs \<and> set cs \<subseteq> range FileCopied \<union> range ErrorWhileCopying"
    by (metis empty_set empty_subsetI)
  then show ?thesis unfolding copy_keeps_def by simp
qed

lemma copy_keeps_step:
  assumes sep: "separate S R" and I: "copy_keeps S R st s" and e: "copy_effect S R sub f s s'"
  shows "copy_keeps S R st s'"
proof -
  let ?P = "R @ sub @ [f]"
  from I have i1: "\<And>q. prefix S q \<Longrightarrow> lookup (fs s) q = lookup (fs st) q"
    and i2: "\<And>rel c. entry_at (fs st) (R @ rel) = IsFile c \<Longrightarrow> (\<forall>x. entry_at (fs st) (S @ rel) \<noteq> IsFile x)
           \<Longrightarrow> entry_at (fs s) (R @ rel) = IsFile c"
    and i3: "\<And>q c. entry_at (fs st) q = IsFile c \<Longrightarrow> \<exists>c. entry_at (fs s) q = IsFile c"
    and i4: "\<And>q. entry_at (fs st) q \<noteq> Absent \<Longrightarrow> entry_at (fs s) q \<noteq> Absent"
    and i5: "\<And>rel x. entry_at (fs s) (R @ rel) = IsFile x \<Longrightarrow>
           entry_at (fs st) (R @ rel) = IsFile x \<or> entry_at (fs st) (S @ rel) = IsFile x"
    and i6: "well_formed (fs st) \<Longrightarrow> well_formed (fs s)"
    and i7: "\<exists>cs. logfile s = logfile st @ cs \<and> set cs \<subseteq> range FileCopied \<union> range ErrorWhileCopying"
    unfolding copy_keeps_def by blast+
  from e have e1: "\<And>q. q \<noteq> ?P \<Longrightarrow> entry_at (fs s) q \<noteq> Absent \<Longrightarrow> entry_at (fs s') q = entry_at (fs s) q"
    and e2: "entry_at (fs s') ?P = entry_at (fs s) ?P
        \<or> (\<exists>c. entry_at (fs s) (S @ sub @ [f]) = IsFile c \<and> entry_at (fs s') ?P = IsFile c
              \<and> entry_at (fs s) ?P \<noteq> IsDir)"
    and e4: "\<And>q. entry_at (fs s) q \<noteq> Absent \<Longrightarrow> entry_at (fs s') q \<noteq> Absent"
    and e9: "\<And>q x. entry_at (fs s') q = IsFile x \<Longrightarrow> q = ?P \<or> entry_at (fs s) q = IsFile x"
    and e6: "\<And>q. \<not> prefix q ?P \<Longrightarrow> lookup (fs s') q = lookup (fs s) q"
    and e7: "logfile s' = logfile s \<or> logfile s' = logfile s @ [FileCopied (sub @ [f])]"
    and e8: "well_formed (fs s) \<Longrightarrow> well_formed (fs s')"
    unfolding copy_effect_def by blast+
  have src: "entry_at (fs s) (S @ x) = entry_at (fs st) (S @ x)" for x
    using i1[of "S @ x"] by (simp add: entry_at_def)
  have c1: "\<forall>q. prefix S q \<longrightarrow> lookup (fs s') q = lookup (fs st) q"
  proof (intro allI impI)
    fix q assume q: "prefix S q"
    then obtain y where "q = S @ y" by (auto simp: prefix_def)
    with separate_paths[OF sep, of y "sub @ [f]"] have "\<not> prefix q ?P" by simp
    from e6[OF this] i1[OF q] show "lookup (fs s') q = lookup (fs st) q" by simp
  qed
  have c2: "\<forall>rel c. entry_at (fs st) (R @ rel) = IsFile c \<and> (\<forall>x. entry_at (fs st) (S @ rel) \<noteq> IsFile x)
           \<longrightarrow> entry_at (fs s') (R @ rel) = IsFile c"
  proof (intro allI impI, elim conjE)
    fix rel c
    assume a: "entry_at (fs st) (R @ rel) = IsFile c" "\<forall>x. entry_at (fs st) (S @ rel) \<noteq> IsFile x"
    from i2[OF a] have b: "entry_at (fs s) (R @ rel) = IsFile c" .
    show "entry_at (fs s') (R @ rel) = IsFile c"
    proof (cases "R @ rel = ?P")
      case True
      then have "rel = sub @ [f]" by simp
      with a(2) src[of rel] have "\<forall>c. entry_at (fs s) (S @ sub @ [f]) \<noteq> IsFile c" by simp
      with e2 True b show ?thesis by auto
    next
      case False
      from e1[OF False] b show ?thesis by simp
    qed
  qed
  have c3: "\<forall>q. (\<exists>c. entry_at (fs st) q = IsFile c) \<longrightarrow> (\<exists>c. entry_at (fs s') q = IsFile c)"
  proof (intro allI impI)
    fix q assume "\<exists>c. entry_at (fs st) q = IsFile c"
    then obtain c where c: "entry_at (fs s) q = IsFile c" using i3 by blast
    show "\<exists>c. entry_at (fs s') q = IsFile c"
    proof (cases "q = ?P")
      case True
      with e2 c show ?thesis by auto
    next
      case False
      from e1[OF False] c show ?thesis by simp
    qed
  qed
  have c4: "\<forall>q. entry_at (fs st) q \<noteq> Absent \<longrightarrow> entry_at (fs s') q \<noteq> Absent"
    using i4 e4 by blast
  have c5: "\<forall>rel x. entry_at (fs s') (R @ rel) = IsFile x \<longrightarrow>
           entry_at (fs st) (R @ rel) = IsFile x \<or> entry_at (fs st) (S @ rel) = IsFile x"
  proof (intro allI impI)
    fix rel x assume a: "entry_at (fs s') (R @ rel) = IsFile x"
    show "entry_at (fs st) (R @ rel) = IsFile x \<or> entry_at (fs st) (S @ rel) = IsFile x"
    proof (cases "entry_at (fs s) (R @ rel) = IsFile x")
      case True
      with i5 show ?thesis by blast
    next
      case False
      with e9[OF a] have P: "R @ rel = ?P" by blast
      then have rel: "rel = sub @ [f]" by simp
      from e2 P a False have "entry_at (fs s) (S @ sub @ [f]) = IsFile x" by auto
      with src[of rel] rel show ?thesis by simp
    qed
  qed
  have c6: "well_formed (fs st) \<longrightarrow> well_formed (fs s')" using i6 e8 by blast
  from i7 obtain cs where cs: "logfile s = logfile st @ cs"
    "set cs \<subseteq> range FileCopied \<union> range ErrorWhileCopying" by blast
  have c7: "\<exists>cs. logfile s' = logfile st @ cs \<and> set cs \<subseteq> range FileCopied \<union> range ErrorWhileCopying"
    using e7
  proof
    assume "logfile s' = logfile s"
    with cs show ?thesis by auto
  next
    assume a: "logfile s' = logfile s @ [FileCopied (sub @ [f])]"
    have "set (cs @ [FileCopied (sub @ [f])]) \<subseteq> range FileCopied \<union> range ErrorWhileCopying"
      using cs(2) by auto
    moreover have "logfile s' = logfile st @ (cs @ [FileCopied (sub @ [f])])" using a cs(1) by simp
    ultimately show ?thesis by blast
  qed
  show ?thesis unfolding copy_keeps_def using c1 c2 c3 c4 c5 c6 c7 by blast
qed

lemma copy_keeps_report:
  assumes I: "copy_keeps S R st s"
  shows "copy_keeps S R st (logging_error (ErrorWhileCopying e) (print_line (ErrorWhileCopying e) s))"
proof -
  let ?s' = "logging_error (ErrorWhileCopying e) (print_line (ErrorWhileCopying e) s)"
  have f: "fs ?s' = fs s" and l: "logfile ?s' = logfile s @ [ErrorWhileCopying e]"
    by (simp_all add: logging_error_def print_line_def)
  from I obtain cs where cs: "logfile s = logfile st @ cs"
    "set cs \<subseteq> range FileCopied \<union> range ErrorWhileCopying"
    unfolding copy_keeps_def by blast
  have "set (cs @ [ErrorWhileCopying e]) \<subseteq> range FileCopied \<union> range ErrorWhileCopying"
    using cs(2) by auto
  moreover have "logfile ?s' = logfile st @ (cs @ [ErrorWhileCopying e])" using l cs(1) by simp
  ultimately have "\<exists>cs. logfile ?s' = logfile st @ cs \<and> set cs \<subseteq> range FileCopied \<union> range ErrorWhileCopying"
    by blast
  with I show ?thesis unfolding copy_keeps_def f by blast
qed

lemma copy_files_keeps:
  assumes sep: "separate S R"
  shows "holds_after (copy_keeps S R st) (copy_files n S R H st)"
proof (rule copy_files_invariant)
  fix sub f and s :: state
  assume I: "copy_keeps S R st s"
  show "holds_after (copy_keeps S R st) (copy_file S R H (S @ sub) f s)"
    by (rule holds_after_mono[OF copy_file_effect[of S R sub f s H]])
       (rule copy_keeps_step[OF sep I])
next
  fix e and s :: state
  assume "copy_keeps S R st s"
  then show "copy_keeps S R st (logging_error (ErrorWhileCopying e) (print_line (ErrorWhileCopying e) s))"
    by (rule copy_keeps_report)
next
  show "copy_keeps S R st st" by (rule copy_keeps_refl)
qed

lemma files_below_iff:
  assumes "well_formed t"
  shows "rel \<in> set (files_below t p) \<longleftrightarrow> rel \<noteq> [] \<and> (\<exists>c. entry_at t (p @ rel) = IsFile c)"
proof (cases "lookup t p")
  case None
  then show ?thesis
    by (simp add: files_below_def entry_at_def lookup_append)
next
  case (Some N)
  from wf_lookup[OF assms Some] have "well_formed N" .
  from walk_files_iff[OF this, of rel] Some show ?thesis
    by (simp add: files_below_def entry_at_IsFile_iff lookup_append)
qed

lemma files_below_distinct: "well_formed t \<Longrightarrow> distinct (files_below t p)"
  by (auto simp: files_below_def split: option.splits dest: wf_lookup walk_files_distinct(1))

lemma copy_walk_files_below:
  assumes sep: "separate S R" and wf: "well_formed (fs st)" and n: "depth (fs st) S < n"
  shows "os_walk n (\<lambda>root dirs files. for_each (copy_file S R H root) files) S st
         = for_each (copy_rel S R H) (files_below (fs st) S) st"
proof (cases "lookup (fs st) S")
  case None
  from n obtain m where "n = Suc m" by (cases n) auto
  with None show ?thesis by (simp add: scandir_def files_below_def)
next
  case (Some N)
  from wf_lookup[OF wf Some] have "well_formed N" .
  moreover from n Some have "height N < n" by (simp add: depth_def)
  ultimately show ?thesis using copy_walk_eager[OF sep Some] Some by (simp add: files_below_def)
qed

lemma remove_walk_files_below:
  assumes wf: "well_formed (fs st)" and n: "depth (fs st) R < n"
  shows "os_walk n (\<lambda>root dirs files. for_each (remove_file R S root) files) R st
         = for_each (remove_rel R S) (files_below (fs st) R) st"
proof (cases "lookup (fs st) R")
  case None
  from n obtain m where "n = Suc m" by (cases n) auto
  with None show ?thesis by (simp add: scandir_def files_below_def)
next
  case (Some N)
  from wf_lookup[OF wf Some] have "well_formed N" .
  moreover from n Some have "height N < n" by (simp add: depth_def)
  ultimately show ?thesis using remove_walk_eager[OF Some] Some by (simp add: files_below_def)
qed

lemma copy_files_returns:
  assumes sep: "separate S R" and wf: "well_formed (fs st)" and n: "depth (fs st) S < n"
  obtains st1 where "copy_files n S R H st = Normal st1" "copy_keeps S R st st1"
proof -
  have "for_each (copy_rel S R H) (files_below (fs st) S) st \<noteq> OutOfFuel"
  proof -
    have "holds_after (\<lambda>s. True) (for_each (copy_rel S R H) rels s)" for rels s by (rule holds_after_True)
    have "for_each (copy_rel S R H) rels s \<noteq> OutOfFuel" for rels s
    proof (induction rels arbitrary: s)
      case Nil
      then show ?case by simp
    next
      case (Cons r rs)
      have "copy_rel S R H r s \<noteq> OutOfFuel"
        unfolding copy_rel_def
        by (cases rule: copy_file_cases[of s R "butlast r" S H "last r"]) simp_all
      with Cons show ?case by (cases "copy_rel S R H r s") simp_all
    qed
    then show ?thesis .
  qed
  then obtain st1 where 1: "copy_files n S R H st = Normal st1"
    unfolding copy_files_def copy_walk_files_below[OF assms]
    by (cases "for_each (copy_rel S R H) (files_below (fs st) S) st") auto
  with copy_files_keeps[OF sep, of st n H] have "copy_keeps S R st st1" by simp
  with 1 that show ?thesis by blast
qed

lemma count_list_map_filter:
  assumes "distinct rels" and "inj F"
  shows "count_list (map F (filter P rels)) (F rel) = (if rel \<in> set rels \<and> P rel then 1 else 0)"
  using assms(1)
proof (induction rels)
  case Nil
  then show ?case by simp
next
  case (Cons r rs)
  then show ?case using assms(2) by (auto simp: inj_eq)
qed

lemma remove_files_exact:
  assumes sep: "separate S R" and wf: "well_formed (fs st)" and n: "depth (fs st) R < n"
  obtains st' ds where "remove_files n R S st = Normal st'"
    "\<And>rel. rel \<noteq> [] \<Longrightarrow> entry_at (fs st') (R @ rel) =
        (if (\<exists>c. entry_at (fs st) (R @ rel) = IsFile c) \<and> entry_at (fs st) (S @ rel) = Absent
         then Absent else entry_at (fs st) (R @ rel))"
    "\<And>q. \<not> prefix R q \<Longrightarrow> entry_at (fs st') q = entry_at (fs st) q"
    "\<And>rel. count_list ds (FileDeleted rel) =
        (if rel \<noteq> [] \<and> (\<exists>c. entry_at (fs st) (R @ rel) = IsFile c) \<and> entry_at (fs st) (S @ rel) = Absent
         then 1 else 0)"
    "set ds \<subseteq> range FileDeleted"
    "well_formed (fs st')"
    "logfile st' = logfile st @ ds"
proof -
  let ?rels = "files_below (fs st) R"
  have d: "distinct ?rels" by (rule files_below_distinct[OF wf])
  have m: "rel \<in> set ?rels \<longleftrightarrow> rel \<noteq> [] \<and> (\<exists>c. entry_at (fs st) (R @ rel) = IsFile c)" for rel
    by (rule files_below_iff[OF wf])
  then have "\<forall>rel\<in>set ?rels. rel \<noteq> [] \<and> (\<exists>c. entry_at (fs st) (R @ rel) = IsFile c)" by blast
  from remove_loop_exact[OF sep d this] obtain st' where st':
    "for_each (remove_rel R S) ?rels st = Normal st'"
    "\<And>q. entry_at (fs st') q =
            (if \<exists>rel\<in>set ?rels. q = R @ rel \<and> entry_at (fs st) (S @ rel) = Absent then Absent
             else entry_at (fs st) q)"
    "logfile st' = logfile st @ map FileDeleted (filter (\<lambda>rel. entry_at (fs st) (S @ rel) = Absent) ?rels)"
    "well_formed (fs st')"
    using wf by blast
  have 1: "remove_files n R S st = Normal st'"
    unfolding remove_files_def remove_walk_files_below[OF wf n] st'(1) by simp
  have 2: "entry_at (fs st') (R @ rel) =
        (if (\<exists>c. entry_at (fs st) (R @ rel) = IsFile c) \<and> entry_at (fs st) (S @ rel) = Absent
         then Absent else entry_at (fs st) (R @ rel))" if "rel \<noteq> []" for rel
    using st'(2)[of "R @ rel"] m[of rel] that by auto
  have 3: "entry_at (fs st') q = entry_at (fs st) q" if "\<not> prefix R q" for q
    using st'(2)[of q] that by auto
  let ?ds = "map FileDeleted (filter (\<lambda>rel. entry_at (fs st) (S @ rel) = Absent) ?rels)"
  have "inj FileDeleted" by (simp add: inj_def)
  from count_list_map_filter[OF d this] m have 4: "count_list ?ds (FileDeleted rel) =
        (if rel \<noteq> [] \<and> (\<exists>c. entry_at (fs st) (R @ rel) = IsFile c) \<and> entry_at (fs st) (S @ rel) = Absent
         then 1 else 0)" for rel
    by simp
  have 5: "set ?ds \<subseteq> range FileDeleted" by auto
  from that[of st' ?ds, OF 1 2 3 4 5 st'(4) st'(3)] show ?thesis .
qed

lemma new_lines_append: "logfile st' = logfile st @ xs \<Longrightarrow> new_lines st st' = xs"
  by (simp add: new_lines_def)

lemma entry_at_source_kept:
  "copy_keeps S R st s \<Longrightarrow> entry_at (fs s) (S @ x) = entry_at (fs st) (S @ x)"
  unfolding copy_keeps_def entry_at_def by simp

lemma cycle_exact:
  assumes sep: "separate S R" and wf: "well_formed (fs st)"
  obtains N st1 st2 cs ds where
    "\<And>n. N \<le> n \<Longrightarrow> copy_files n S R H st = Normal st1"
    "\<And>n. N \<le> n \<Longrightarrow> remove_files n R S st1 = Normal st2"
    "\<And>n. N \<le> n \<Longrightarrow> synchronize_folders n S R H st
        = Normal (logging_info SynchronizationCompleted st2)"
    "copy_keeps S R st st1"
    "for_each (copy_rel S R H) (files_below (fs st) S) st = Normal st1
     \<or> (\<exists>e s. for_each (copy_rel S R H) (files_below (fs st) S) st = Raised e s
            \<and> st1 = logging_error (ErrorWhileCopying e) (print_line (ErrorWhileCopying e) s))"
    "\<And>rel. rel \<noteq> [] \<Longrightarrow> entry_at (fs st2) (R @ rel) =
        (if (\<exists>c. entry_at (fs st1) (R @ rel) = IsFile c) \<and> entry_at (fs st) (S @ rel) = Absent
         then Absent else entry_at (fs st1) (R @ rel))"
    "\<And>q. \<not> prefix R q \<Longrightarrow> entry_at (fs st2) q = entry_at (fs st1) q"
    "\<And>rel. count_list ds (FileDeleted rel) =
        (if rel \<noteq> [] \<and> (\<exists>c. entry_at (fs st1) (R @ rel) = IsFile c) \<and> entry_at (fs st) (S @ rel) = Absent
         then 1 else 0)"
    "set ds \<subseteq> range FileDeleted"
    "well_formed (fs st1)" "well_formed (fs st2)"
    "logfile st1 = logfile st @ cs" "set cs \<subseteq> range FileCopied \<union> range ErrorWhileCopying"
    "logfile st2 = logfile st1 @ ds"
proof -
  let ?n0 = "Suc (depth (fs st) S)"
  have lt: "depth (fs st) S < ?n0" by simp
  from copy_files_returns[OF sep wf lt, of H] obtain st1 where
    st1: "copy_files ?n0 S R H st = Normal st1" "copy_keeps S R st st1" by blast
  have same: "copy_files n S R H st = copy_files ?n0 S R H st" if "?n0 \<le> n" for n
  proof -
    from that have "depth (fs st) S < n" by simp
    from copy_walk_files_below[OF sep wf this, of H] copy_walk_files_below[OF sep wf lt, of H]
    show ?thesis by (simp add: copy_files_def)
  qed
  have loop: "for_each (copy_rel S R H) (files_below (fs st) S) st = Normal st1
     \<or> (\<exists>e s. for_each (copy_rel S R H) (files_below (fs st) S) st = Raised e s
            \<and> st1 = logging_error (ErrorWhileCopying e) (print_line (ErrorWhileCopying e) s))"
    using st1(1) unfolding copy_files_def copy_walk_files_below[OF sep wf lt]
    by (cases "for_each (copy_rel S R H) (files_below (fs st) S) st") auto
  from st1(2) wf have wf1: "well_formed (fs st1)" unfolding copy_keeps_def by blast
  from st1(2) obtain cs where cs: "logfile st1 = logfile st @ cs"
    "set cs \<subseteq> range FileCopied \<union> range ErrorWhileCopying"
    unfolding copy_keeps_def by blast
  let ?n1 = "Suc (depth (fs st1) R)"
  have lt1: "depth (fs st1) R < ?n1" by simp
  from remove_files_exact[OF sep wf1 lt1] obtain st2 ds where st2:
    "remove_files ?n1 R S st1 = Normal st2"
    "\<And>rel. rel \<noteq> [] \<Longrightarrow> entry_at (fs st2) (R @ rel) =
        (if (\<exists>c. entry_at (fs st1) (R @ rel) = IsFile c) \<and> entry_at (fs st1) (S @ rel) = Absent
         then Absent else entry_at (fs st1) (R @ rel))"
    "\<And>q. \<not> prefix R q \<Longrightarrow> entry_at (fs st2) q = entry_at (fs st1) q"
    "\<And>rel. count_list ds (FileDeleted rel) =
        (if rel \<noteq> [] \<and> (\<exists>c. entry_at (fs st1) (R @ rel) = IsFile c) \<and> entry_at (fs st1) (S @ rel) = Absent
         then 1 else 0)"
    "set ds \<subseteq> range FileDeleted"
    "well_formed (fs st2)"
    "logfile st2 = logfile st1 @ ds"
    by blast
  have same1: "remove_files n R S st1 = remove_files ?n1 R S st1" if "?n1 \<le> n" for n
  proof -
    from that have "depth (fs st1) R < n" by simp
    from remove_walk_files_below[OF wf1 this, of S] remove_walk_files_below[OF wf1 lt1, of S]
    show ?thesis by (simp add: remove_files_def)
  qed
  let ?N = "max ?n0 ?n1"
  have a: "copy_files n S R H st = Normal st1" if "?N \<le> n" for n
    using same[of n] st1(1) that by simp
  have b: "remove_files n R S st1 = Normal st2" if "?N \<le> n" for n
    using same1[of n] st2(1) that by simp
  have c: "synchronize_folders n S R H st = Normal (logging_info SynchronizationCompleted st2)"
    if "?N \<le> n" for n
    using a[OF that] b[OF that] by (simp add: synchronize_folders_def)
  note src = entry_at_source_kept[OF st1(2)]
  show ?thesis
    by (rule that[where N = ?N, OF a b c st1(2) loop st2(2)[unfolded src] st2(3)
          st2(4)[unfolded src] st2(5) wf1 st2(6) cs st2(7)])
qed

end
